theory Spec2Isabelle
  imports Complex_Main "HOL-Library.Word" "HOL-Library.Multiset"
begin

section \<open>Machine types\<close>

text \<open>
  \<^verbatim>\<open>int\<close> is a 32-bit word and \<^verbatim>\<open>int64_t\<close> a 64-bit word; additions and subtractions
  wrap (two's complement), comparisons of signed values are the signed ones (\<open><s\<close>).
  The C++ types \<^verbatim>\<open>float\<close> and \<^verbatim>\<open>double\<close> are the type parameters \<open>'f\<close> and \<open>'g\<close>:
  the arithmetic on \<^verbatim>\<open>float\<close> that the registry uses is passed in as a record of
  operations, so that every theorem holds whatever the rounding of the machine is.
  \<^verbatim>\<open>cv::Mat\<close> is the type parameter \<open>'img\<close>. A member whose name ends in an
  underscore in the source (\<^verbatim>\<open>sessions_\<close>) ends in \<open>_m\<close> here (\<open>sessions_m\<close>).
\<close>

type_synonym int32 = "32 word"
type_synonym int64 = "64 word"

record 'f float_ops =
  f_zero :: 'f
  f_eq :: "'f \<Rightarrow> 'f \<Rightarrow> bool"
  f_add :: "'f \<Rightarrow> 'f \<Rightarrow> 'f"
  f_mul :: "'f \<Rightarrow> 'f \<Rightarrow> 'f"
  f_lit_0_9 :: 'f
  f_lit_0_1 :: 'f

text \<open>Exact arithmetic over the reals, used to run the model on concrete numbers.\<close>

definition exact_ops :: "real float_ops" where
  "exact_ops = \<lparr>f_zero = 0, f_eq = (=), f_add = (+), f_mul = (*),
     f_lit_0_9 = 9 / 10, f_lit_0_1 = 1 / 10\<rparr>"

datatype crash = NullDereference | Terminate

section \<open>inference\_engine.h: the detector's result\<close>

record 'f detection =
  x1 :: 'f
  y1 :: 'f
  x2 :: 'f
  y2 :: 'f
  confidence :: 'f
  class_id :: int32
  class_name :: string

record 'f inference_result =
  detections :: "'f detection list"
  inference_time_ms :: 'f
  staff_count_res :: int32
  customer_count_res :: int32

section \<open>video\_decoder: the per-camera decode worker\<close>

text \<open>
  \<^verbatim>\<open>std::unique_ptr<std::thread> decode_thread_\<close> is \<open>None\<close> while null; a thread object
  is joinable from its creation until it has been joined, also after its function returned.
  \<^verbatim>\<open>frame_callback_\<close> holds the closure \<^verbatim>\<open>[this, channel]\<close> of the registry, that is the
  channel it is bound to. The frame buffer and the codec context are not read by the
  registry and are left out.
\<close>

datatype thread_handle = Joinable | Joined

record 'g video_decoder =
  rtsp_url_m :: string
  running_m :: bool
  width_m :: int32
  height_m :: int32
  fps_m :: 'g
  decode_thread_m :: "thread_handle option"
  frame_callback_m :: "int32 option"

definition VideoDecoder :: "'g \<Rightarrow> string \<Rightarrow> 'g video_decoder" where
  "VideoDecoder zero_fps url =
     \<lparr>rtsp_url_m = url, running_m = False, width_m = 0, height_m = 0, fps_m = zero_fps,
      decode_thread_m = None, frame_callback_m = None\<rparr>"

text \<open>
  \<^verbatim>\<open>VideoDecoder::start\<close>. On a decoder that is not running it stores the callback, sets
  \<^verbatim>\<open>running_\<close> and assigns a new thread object to \<^verbatim>\<open>decode_thread_\<close>; the assignment
  destroys the thread object held before, and destroying one that is still joinable
  calls \<^verbatim>\<open>std::terminate\<close>. \<open>decoder_started\<close> is the decoder after a start that went
  through.
\<close>

definition decoder_started :: "int32 \<Rightarrow> 'g video_decoder \<Rightarrow> 'g video_decoder" where
  "decoder_started callback d =
     d\<lparr>frame_callback_m := Some callback, running_m := True, decode_thread_m := Some Joinable\<rparr>"

definition decoder_start :: "int32 \<Rightarrow> 'g video_decoder \<Rightarrow> crash + 'g video_decoder" where
  "decoder_start callback d =
     (if running_m d then Inr d
      else if decode_thread_m d = Some Joinable then Inl Terminate
      else Inr (decoder_started callback d))"

text \<open>\<^verbatim>\<open>std::thread::join\<close>, called only when \<^verbatim>\<open>decode_thread_ && joinable()\<close>.\<close>

definition join_thread :: "thread_handle option \<Rightarrow> thread_handle option" where
  "join_thread t = (case t of Some Joinable \<Rightarrow> Some Joined | _ \<Rightarrow> t)"

definition decoder_stop :: "'g video_decoder \<Rightarrow> 'g video_decoder" where
  "decoder_stop d =
     (if running_m d
      then d\<lparr>running_m := False, decode_thread_m := join_thread (decode_thread_m d)\<rparr>
      else d)"

text \<open>
  When \<^verbatim>\<open>decode_loop\<close> ends (open failure, read error, end of stream or a stop request)
  the decode thread clears \<^verbatim>\<open>running_\<close> and returns; the thread object stays joinable.
\<close>

text \<open>
  \<^verbatim>\<open>~VideoDecoder\<close>: stops a running decoder, then destroys the members. Destroying a
  \<^verbatim>\<open>std::thread\<close> that is still joinable calls \<^verbatim>\<open>std::terminate\<close>.
\<close>

definition decoder_destroy :: "'g video_decoder \<Rightarrow> crash option" where
  "decoder_destroy d =
     (let d' = (if running_m d then decoder_stop d else d)
      in if decode_thread_m d' = Some Joinable then Some Terminate else None)"

text \<open>
  What the decode thread has written into the decoder by the time the registry reads it
  back, 500 ms after \<^verbatim>\<open>start\<close>: an input of the model.
\<close>

record 'g stream_probe =
  probe_running :: bool
  probe_width :: int32
  probe_height :: int32
  probe_fps :: 'g

definition decoder_after_sleep :: "'g stream_probe \<Rightarrow> 'g video_decoder \<Rightarrow> 'g video_decoder" where
  "decoder_after_sleep p d =
     d\<lparr>running_m := probe_running p, width_m := probe_width p, height_m := probe_height p,
       fps_m := probe_fps p\<rparr>"

section \<open>camera\_manager: the session registry\<close>

record ('f, 'g) camera_stats =
  channel :: int32
  rtsp_url :: string
  is_running :: bool
  width :: int32
  height :: int32
  fps :: 'g
  total_frames :: int32
  staff_count :: int32
  customer_count :: int32
  avg_inference_ms :: 'f
  start_time_ms :: int64

text \<open>
  \<^verbatim>\<open>latest_annotated_frame\<close> is \<open>None\<close> while the matrix is the empty one it is
  constructed as.
\<close>

record ('f, 'g, 'img) camera_session =
  channel_s :: int32
  rtsp_url_s :: string
  decoder :: "'g video_decoder option"
  latest_annotated_frame :: "'img option"
  stats :: "('f, 'g) camera_stats"
  last_frame_time_ms :: int64

text \<open>
  The registry. The detector is outside the program: \<open>inference_engine_m\<close> records the
  frames it has been called with, in order, so that a call of the detector is a visible
  effect.
\<close>

record ('f, 'g, 'img) camera_manager =
  inference_engine_m :: "'img list"
  sessions_m :: "int32 \<rightharpoonup> ('f, 'g, 'img) camera_session"

definition CameraManager :: "('f, 'g, 'img) camera_manager" where
  "CameraManager = \<lparr>inference_engine_m = [], sessions_m = Map.empty\<rparr>"

text \<open>
  What one call of \<^verbatim>\<open>on_frame_received\<close> reads from outside: the system clock, the
  detector (\<open>None\<close> when \<^verbatim>\<open>infer\<close> throws a \<^verbatim>\<open>std::exception\<close>) and the OpenCV drawing
  (\<open>None\<close> when it throws).
\<close>

record ('f, 'img) frame_env =
  now_ms :: int64
  infer :: "'img \<Rightarrow> 'f inference_result option"
  draw_detections :: "'img \<Rightarrow> 'f inference_result \<Rightarrow> 'img option"

text \<open>The running average of camera\_manager.cpp, lines 134 to 139.\<close>

definition update_avg :: "'f float_ops \<Rightarrow> 'f \<Rightarrow> 'f \<Rightarrow> 'f" where
  "update_avg fl avg latency =
     (if f_eq fl avg (f_zero fl) then latency
      else f_add fl (f_mul fl (f_lit_0_9 fl) avg) (f_mul fl (f_lit_0_1 fl) latency))"

definition on_frame_received ::
  "'f float_ops \<Rightarrow> ('f, 'img) frame_env \<Rightarrow> int32 \<Rightarrow> 'img \<Rightarrow>
   ('f, 'g, 'img) camera_manager \<Rightarrow> ('f, 'g, 'img) camera_manager" where
  "on_frame_received fl env ch frame s =
     (case sessions_m s ch of
        None \<Rightarrow> s
      | Some session \<Rightarrow>
          let session1 = session\<lparr>stats := (stats session)
                 \<lparr>total_frames := total_frames (stats session) + 1\<rparr>\<rparr>
          in if now_ms env - last_frame_time_ms session1 <s 200
             then s\<lparr>sessions_m := (sessions_m s)(ch \<mapsto> session1)\<rparr>
             else
               let session2 = session1\<lparr>last_frame_time_ms := now_ms env\<rparr>;
                   s2 = s\<lparr>inference_engine_m := inference_engine_m s @ [frame]\<rparr>
               in (case infer env frame of
                     None \<Rightarrow> s2\<lparr>sessions_m := (sessions_m s)(ch \<mapsto> session2)\<rparr>
                   | Some result \<Rightarrow>
                       let session3 = session2\<lparr>stats := (stats session2)
                              \<lparr>staff_count := staff_count_res result,
                               customer_count := customer_count_res result,
                               avg_inference_ms :=
                                 update_avg fl (avg_inference_ms (stats session2))
                                   (inference_time_ms result)\<rparr>\<rparr>
                       in (case draw_detections env frame result of
                             None \<Rightarrow> s2\<lparr>sessions_m := (sessions_m s)(ch \<mapsto> session3)\<rparr>
                           | Some annotated \<Rightarrow>
                               s2\<lparr>sessions_m := (sessions_m s)
                                    (ch \<mapsto> session3\<lparr>latest_annotated_frame := Some annotated\<rparr>)\<rparr>)))"

text \<open>The decode thread delivering a run of frames, each with its own clock reading.\<close>

fun deliver ::
  "'f float_ops \<Rightarrow> int32 \<Rightarrow> (('f, 'img) frame_env \<times> 'img) list \<Rightarrow>
   ('f, 'g, 'img) camera_manager \<Rightarrow> ('f, 'g, 'img) camera_manager" where
  "deliver fl ch [] s = s"
| "deliver fl ch ((env, frame) # rest) s = deliver fl ch rest (on_frame_received fl env ch frame s)"

text \<open>
  What \<^verbatim>\<open>start_camera\<close> reads from outside: the system clock and the decoder's fields
  after the sleep.
\<close>

record 'g start_env =
  clock_ms :: int64
  after_sleep :: "'g stream_probe"
  zero_fps :: 'g

text \<open>
  \<^verbatim>\<open>start_camera\<close> up to and including \<^verbatim>\<open>sessions_[channel] = std::move(session)\<close>:
  \<open>session_with\<close> is the session as it is stored in the map, given the decoder as
  \<^verbatim>\<open>start\<close> left it. The decoder of \<^verbatim>\<open>start_camera\<close> is a new one, on which \<^verbatim>\<open>start\<close>
  goes through: \<open>new_session\<close> is the session stored then.
\<close>

definition session_with ::
  "'f float_ops \<Rightarrow> 'g start_env \<Rightarrow> int32 \<Rightarrow> string \<Rightarrow> 'g video_decoder \<Rightarrow>
   ('f, 'g, 'img) camera_session" where
  "session_with fl env ch url started =
     (let d = decoder_after_sleep (after_sleep env) started
      in \<lparr>channel_s = ch, rtsp_url_s = url, decoder = Some d, latest_annotated_frame = None,
          stats = \<lparr>channel = ch, rtsp_url = url, is_running = running_m d, width = width_m d,
            height = height_m d, fps = fps_m d, total_frames = 0, staff_count = 0,
            customer_count = 0, avg_inference_ms = f_zero fl, start_time_ms = clock_ms env\<rparr>,
          last_frame_time_ms = 0\<rparr>)"

definition new_session ::
  "'f float_ops \<Rightarrow> 'g start_env \<Rightarrow> int32 \<Rightarrow> string \<Rightarrow> ('f, 'g, 'img) camera_session" where
  "new_session fl env ch url =
     session_with fl env ch url (decoder_started ch (VideoDecoder (zero_fps env) url))"

text \<open>
  A \<^verbatim>\<open>std::unique_ptr\<close> is \<open>None\<close> when null. \<^verbatim>\<open>std::move\<close> out of it gives the pointer
  and leaves null behind; \<^verbatim>\<open>operator->\<close> is undefined on null.
\<close>

definition move_ptr :: "'a option \<Rightarrow> 'a option \<times> 'a option" where
  "move_ptr p = (p, None)"

definition deref :: "'a option \<Rightarrow> crash + 'a" where
  "deref p = (case p of None \<Rightarrow> Inl NullDereference | Some x \<Rightarrow> Inr x)"

text \<open>
  \<^verbatim>\<open>start_camera\<close>. The local \<^verbatim>\<open>session\<close> is moved into the map, and the log line that
  follows reads \<^verbatim>\<open>session->stats.width\<close>, \<^verbatim>\<open>height\<close> and \<^verbatim>\<open>fps\<close> through it.
\<close>

definition start_camera ::
  "'f float_ops \<Rightarrow> 'g start_env \<Rightarrow> int32 \<Rightarrow> string \<Rightarrow> ('f, 'g, 'img) camera_manager \<Rightarrow>
   crash + (bool \<times> ('f, 'g, 'img) camera_manager)" where
  "start_camera fl env ch url s =
     (case sessions_m s ch of
        Some running \<Rightarrow> Inr (False, s)
      | None \<Rightarrow>
          (case decoder_start ch (VideoDecoder (zero_fps env) url) of
             Inl c \<Rightarrow> Inl c
           | Inr started \<Rightarrow>
               (case move_ptr (Some (session_with fl env ch url started)) of
                  (stored, session) \<Rightarrow>
                    let s' = s\<lparr>sessions_m := (sessions_m s)(ch := stored)\<rparr>
                    in (case deref session of
                          Inl c \<Rightarrow> Inl c
                        | Inr logged \<Rightarrow> Inr (True, s')))))"

text \<open>
  Destroying a session destroys its decoder. \<^verbatim>\<open>stop_camera\<close> stops the decoder, then
  erases the map entry, which destroys the session.
\<close>

definition session_destroy :: "('f, 'g, 'img) camera_session \<Rightarrow> crash option" where
  "session_destroy session =
     (case decoder session of None \<Rightarrow> None | Some d \<Rightarrow> decoder_destroy d)"

definition stop_camera ::
  "int32 \<Rightarrow> ('f, 'g, 'img) camera_manager \<Rightarrow> crash + (bool \<times> ('f, 'g, 'img) camera_manager)" where
  "stop_camera ch s =
     (case sessions_m s ch of
        None \<Rightarrow> Inr (False, s)
      | Some session \<Rightarrow>
          let session' = (case decoder session of
                            None \<Rightarrow> session
                          | Some d \<Rightarrow> session\<lparr>decoder := Some (decoder_stop d)\<rparr>)
          in (case session_destroy session' of
                Some c \<Rightarrow> Inl c
              | None \<Rightarrow> Inr (True, s\<lparr>sessions_m := (sessions_m s)(ch := None)\<rparr>)))"

text \<open>The number of detector calls so far, and the timestamps of a run of frames.\<close>

definition detector_calls :: "('f, 'g, 'img) camera_manager \<Rightarrow> nat" where
  "detector_calls s = length (inference_engine_m s)"

fun arrivals :: "int64 \<Rightarrow> int64 \<Rightarrow> (('f, 'img) frame_env \<times> 'img) list \<Rightarrow> bool" where
  "arrivals t period [] = True"
| "arrivals t period ((env, frame) # rest) = (now_ms env = t \<and> arrivals (t + period) period rest)"

subsection \<open>Concrete registries, to run the model on\<close>

definition start_env0 :: "real start_env" where
  "start_env0 = \<lparr>clock_ms = 1700000000000,
     after_sleep = \<lparr>probe_running = True, probe_width = 1920, probe_height = 1080,
       probe_fps = 25\<rparr>,
     zero_fps = 0\<rparr>"

definition registry5 :: "(real, real, nat) camera_manager" where
  "registry5 = CameraManager\<lparr>sessions_m := [5 \<mapsto> new_session exact_ops start_env0 5 ''rtsp://a'']\<rparr>"

definition result0 :: "real \<Rightarrow> real inference_result" where
  "result0 latency = \<lparr>detections = [], inference_time_ms = latency, staff_count_res = 1,
     customer_count_res = 2\<rparr>"

definition env0 :: "int64 \<Rightarrow> real \<Rightarrow> (real, nat) frame_env" where
  "env0 t latency = \<lparr>now_ms = t, infer = (\<lambda>frame. Some (result0 latency)),
     draw_detections = (\<lambda>frame result. Some (Suc frame))\<rparr>"

definition frames20 :: "((real, nat) frame_env \<times> nat) list" where
  "frames20 = map (\<lambda>k. (env0 (1700000001000 + 50 * of_nat k) 12, k)) [0..<20]"

text \<open>Channel 7, whose stream could not be opened: the decode thread has returned.\<close>

definition start_env_failed :: "real start_env" where
  "start_env_failed = \<lparr>clock_ms = 1700000000000,
     after_sleep = \<lparr>probe_running = False, probe_width = 0, probe_height = 0,
       probe_fps = 0\<rparr>,
     zero_fps = 0\<rparr>"

definition registry7 :: "(real, real, nat) camera_manager" where
  "registry7 = CameraManager\<lparr>sessions_m :=
     [7 \<mapsto> new_session exact_ops start_env_failed 7 ''rtsp://unreachable'']\<rparr>"

section \<open>thread\_pool: the worker pool\<close>

text \<open>
  The pool's state is guarded by \<^verbatim>\<open>queue_mutex_\<close>, so the pool moves by atomic steps:
  a submission, the critical section of a worker's loop, the end of a task's call, and
  the destructor setting \<^verbatim>\<open>stop_\<close>. A task is a value of type \<open>'a\<close>; two submissions
  are two tasks. \<open>completed\<close> lists the tasks whose call has ended (by returning or by
  throwing, which the worker catches), in that order.
  \<^verbatim>\<open>enqueue\<close> on a stopped pool throws \<^verbatim>\<open>std::runtime_error\<close>: the error \<open>PoolClosed\<close>.
\<close>

datatype pool_error = PoolClosed

datatype 'a worker = Waiting | Running 'a | Exited

record 'a thread_pool =
  workers_m :: "'a worker list"
  tasks_m :: "'a list"
  stop_m :: bool
  completed :: "'a list"

definition ThreadPool :: "nat \<Rightarrow> 'a thread_pool" where
  "ThreadPool num_threads =
     \<lparr>workers_m = replicate num_threads Waiting, tasks_m = [], stop_m = False, completed = []\<rparr>"

definition enqueue :: "'a \<Rightarrow> 'a thread_pool \<Rightarrow> pool_error + 'a thread_pool" where
  "enqueue task p =
     (if stop_m p then Inl PoolClosed else Inr (p\<lparr>tasks_m := tasks_m p @ [task]\<rparr>))"

text \<open>
  A worker's critical section: it waits until \<^verbatim>\<open>stop_ || !tasks_.empty()\<close> (the step is
  not enabled before), returns when \<^verbatim>\<open>stop_ && tasks_.empty()\<close>, and otherwise takes the
  front task. Outside the lock it calls the task; \<open>worker_finish\<close> is the end of the call.
\<close>

definition worker_wake :: "nat \<Rightarrow> 'a thread_pool \<Rightarrow> 'a thread_pool option" where
  "worker_wake i p =
     (if i < length (workers_m p) \<and> workers_m p ! i = Waiting \<and> (stop_m p \<or> tasks_m p \<noteq> [])
      then if stop_m p \<and> tasks_m p = []
           then Some (p\<lparr>workers_m := (workers_m p)[i := Exited]\<rparr>)
           else (case tasks_m p of
                   [] \<Rightarrow> None
                 | task # rest \<Rightarrow>
                     Some (p\<lparr>tasks_m := rest, workers_m := (workers_m p)[i := Running task]\<rparr>))
      else None)"

definition worker_finish :: "nat \<Rightarrow> 'a thread_pool \<Rightarrow> 'a thread_pool option" where
  "worker_finish i p =
     (if i < length (workers_m p)
      then (case workers_m p ! i of
              Running task \<Rightarrow>
                Some (p\<lparr>completed := completed p @ [task], workers_m := (workers_m p)[i := Waiting]\<rparr>)
            | _ \<Rightarrow> None)
      else None)"

text \<open>
  \<^verbatim>\<open>~ThreadPool\<close> sets \<^verbatim>\<open>stop_\<close>, wakes every worker and joins them: it returns once
  every worker has left its loop (\<open>joined\<close>).
\<close>

definition shutdown :: "'a thread_pool \<Rightarrow> 'a thread_pool" where
  "shutdown p = p\<lparr>stop_m := True\<rparr>"

definition joined :: "'a thread_pool \<Rightarrow> bool" where
  "joined p = list_all (\<lambda>w. w = Exited) (workers_m p)"

datatype 'a pool_event = Enqueue 'a | Wake nat | Finish nat | Shutdown

fun pool_step :: "'a pool_event \<Rightarrow> 'a thread_pool \<Rightarrow> 'a thread_pool option" where
  "pool_step (Enqueue task) p = (case enqueue task p of Inl e \<Rightarrow> Some p | Inr p' \<Rightarrow> Some p')"
| "pool_step (Wake i) p = worker_wake i p"
| "pool_step (Finish i) p = worker_finish i p"
| "pool_step Shutdown p = Some (shutdown p)"

fun pool_run :: "'a pool_event list \<Rightarrow> 'a thread_pool \<Rightarrow> 'a thread_pool option" where
  "pool_run [] p = Some p"
| "pool_run (e # es) p = (case pool_step e p of None \<Rightarrow> None | Some p' \<Rightarrow> pool_run es p')"

text \<open>
  The tasks a pool holds: queued, being called, or completed. \<open>accepted\<close> are the
  submissions of a run up to its first \<open>Shutdown\<close>.
\<close>

fun task_of :: "'a worker \<Rightarrow> 'a list" where
  "task_of (Running task) = [task]"
| "task_of _ = []"

definition running_tasks :: "'a thread_pool \<Rightarrow> 'a list" where
  "running_tasks p = concat (map task_of (workers_m p))"

definition held :: "'a thread_pool \<Rightarrow> 'a multiset" where
  "held p = mset (tasks_m p) + mset (running_tasks p) + mset (completed p)"

fun accepted :: "'a pool_event list \<Rightarrow> 'a list" where
  "accepted [] = []"
| "accepted (Enqueue task # es) = task # accepted es"
| "accepted (Shutdown # es) = []"
| "accepted (e # es) = accepted es"

definition exit_inv :: "'a thread_pool \<Rightarrow> bool" where
  "exit_inv p = (Exited \<in> set (workers_m p) \<longrightarrow> stop_m p \<and> tasks_m p = [])"

definition late_example :: "string thread_pool" where
  "late_example = \<lparr>workers_m = [Waiting], tasks_m = [''a''], stop_m = False, completed = []\<rparr>"

text \<open>
  The steps of the workers, and a bound on how many of them a pool can still take: a
  queued task costs a take, its call and the next critical section; a worker that is
  calling a task has the end of the call and one more critical section before it, a
  waiting worker at least its exit.
\<close>

fun worker_event :: "'a pool_event \<Rightarrow> bool" where
  "worker_event (Wake i) = True"
| "worker_event (Finish i) = True"
| "worker_event e = False"

fun weight :: "'a worker \<Rightarrow> nat" where
  "weight Waiting = 1"
| "weight (Running task) = 2"
| "weight Exited = 0"

definition work_left :: "'a thread_pool \<Rightarrow> nat" where
  "work_left p = 3 * length (tasks_m p) + sum_list (map weight (workers_m p))"

text \<open>Two tasks queued when the destructor runs, and the steps of the one worker after it.\<close>

definition backlog_example :: "string pool_event list" where
  "backlog_example = [Enqueue ''a'', Enqueue ''b'', Shutdown]"

definition drain_example :: "string pool_event list" where
  "drain_example = [Wake 0, Finish 0, Wake 0, Finish 0, Wake 0]"

section \<open>lockfree\_queue: the task queue\<close>

text \<open>
  The queue lives in a store of nodes: \<open>heap\<close> maps the addresses of the allocated nodes
  to their contents, \<^verbatim>\<open>delete\<close> removes an address, and reading through an address that is
  not allocated is the fault \<open>Dangling\<close>. \<^verbatim>\<open>std::shared_ptr<T> data\<close> and the \<^verbatim>\<open>next\<close>
  pointer are \<open>None\<close> when null. \<^verbatim>\<open>head_\<close> and \<^verbatim>\<open>tail_\<close> are only ever written with
  addresses of nodes, \<^verbatim>\<open>size_\<close> is a \<^verbatim>\<open>size_t\<close>.

  The model runs one operation at a time (no other thread interferes between the steps
  of a call). A \<^verbatim>\<open>compare_exchange_weak\<close> whose comparison succeeds may still fail
  spuriously: each call takes a list \<open>weak\<close> that says, for its successive CAS attempts,
  whether they fail spuriously; once the list is used up none does.
\<close>

type_synonym addr = nat

record 'a node =
  data :: "'a option"
  "next" :: "addr option"

record 'a lockfree_queue =
  heap :: "addr \<rightharpoonup> 'a node"
  head_m :: addr
  tail_m :: addr
  size_m :: "64 word"

datatype queue_fault = Dangling

text \<open>
  What a \<^verbatim>\<open>pop\<close> does, in order: its attempts to swing the tail and the head (with the
  expected and the desired address and whether the CAS succeeded), the copy of a node's
  payload into \<^verbatim>\<open>result\<close>, and the \<^verbatim>\<open>delete\<close> of a node.
\<close>

datatype 'a queue_event =
    CasTail addr addr bool
  | CopyPayload addr 'a
  | CasHead addr addr bool
  | Retire addr

text \<open>The constructor; \<open>dummy\<close> is the address \<^verbatim>\<open>new Node()\<close> returned.\<close>

definition LockFreeQueue :: "addr \<Rightarrow> 'a lockfree_queue" where
  "LockFreeQueue dummy =
     \<lparr>heap = [dummy \<mapsto> \<lparr>data = None, next = None\<rparr>], head_m = dummy, tail_m = dummy, size_m = 0\<rparr>"

text \<open>
  \<^verbatim>\<open>compare_exchange_weak(expected, desired)\<close> on a cell holding \<open>current\<close>: whether it
  succeeded, the cell afterwards, and the rest of \<open>weak\<close>.
\<close>

definition compare_exchange_weak :: "bool list \<Rightarrow> 'v \<Rightarrow> 'v \<Rightarrow> 'v \<Rightarrow> bool \<times> 'v \<times> bool list" where
  "compare_exchange_weak weak current expected desired =
     (if current = expected
      then (case weak of
              [] \<Rightarrow> (True, desired, [])
            | spurious # weak' \<Rightarrow> if spurious then (False, current, weak') else (True, desired, weak'))
      else (False, current, weak))"

text \<open>
  The \<^verbatim>\<open>while (true)\<close> of \<^verbatim>\<open>push\<close>; \<open>None\<close> is a loop that never returns.
\<close>

partial_function (option) push_loop ::
  "bool list \<Rightarrow> addr \<Rightarrow> addr \<Rightarrow> 'a lockfree_queue \<Rightarrow> (queue_fault + bool \<times> 'a lockfree_queue) option" where
  "push_loop weak new_node old_tail q =
     (case heap q old_tail of
        None \<Rightarrow> Some (Inl Dangling)
      | Some tail_node \<Rightarrow>
          let tail_next = next tail_node
          in if old_tail = tail_m q
             then (case tail_next of
                     None \<Rightarrow>
                       (case compare_exchange_weak weak (next tail_node) tail_next (Some new_node) of
                          (linked, next', weak1) \<Rightarrow>
                            if linked
                            then let q1 = q\<lparr>heap := (heap q)(old_tail \<mapsto> tail_node\<lparr>next := next'\<rparr>)\<rparr>
                                 in (case compare_exchange_weak weak1 (tail_m q1) old_tail new_node of
                                       (swung, tail', weak2) \<Rightarrow>
                                         Some (Inr (True, q1\<lparr>tail_m := tail', size_m := size_m q1 + 1\<rparr>)))
                            else push_loop weak1 new_node (tail_m q) q)
                   | Some n \<Rightarrow>
                       (case compare_exchange_weak weak (tail_m q) old_tail n of
                          (swung, tail', weak1) \<Rightarrow>
                            push_loop weak1 new_node tail' (q\<lparr>tail_m := tail'\<rparr>)))
             else push_loop weak new_node (tail_m q) q)"

declare push_loop.simps [code]

text \<open>
  \<^verbatim>\<open>push\<close>; \<open>new_node\<close> is the address \<^verbatim>\<open>new Node(value)\<close> returned. The allocator never
  returns an address that is in use, so the callers of \<open>push\<close> below give it an address
  outside \<open>dom (heap q)\<close>; an address freed earlier may come back.
\<close>

definition push ::
  "'a \<Rightarrow> addr \<Rightarrow> bool list \<Rightarrow> 'a lockfree_queue \<Rightarrow> (queue_fault + bool \<times> 'a lockfree_queue) option" where
  "push v new_node weak q =
     (let q0 = q\<lparr>heap := (heap q)(new_node \<mapsto> \<lparr>data = Some v, next = None\<rparr>)\<rparr>
      in push_loop weak new_node (tail_m q0) q0)"

text \<open>
  The \<^verbatim>\<open>while (true)\<close> of \<^verbatim>\<open>pop\<close>. \<open>result\<close> is what has been written into the caller's
  variable so far (\<open>None\<close>: nothing), \<open>tr\<close> the events so far. It returns \<open>found\<close>, what
  was written to \<^verbatim>\<open>result\<close>, the queue and the events.
\<close>

partial_function (option) pop_loop ::
  "bool list \<Rightarrow> 'a option \<Rightarrow> addr \<Rightarrow> 'a queue_event list \<Rightarrow> 'a lockfree_queue \<Rightarrow>
   (queue_fault + bool \<times> 'a option \<times> 'a lockfree_queue \<times> 'a queue_event list) option" where
  "pop_loop weak result old_head tr q =
     (let old_tail = tail_m q
      in case heap q old_head of
           None \<Rightarrow> Some (Inl Dangling)
         | Some head_node \<Rightarrow>
             let head_next = next head_node
             in if old_head = head_m q
                then if old_head = old_tail
                     then (case head_next of
                             None \<Rightarrow> Some (Inr (False, result, q, tr))
                           | Some n \<Rightarrow>
                               (case compare_exchange_weak weak (tail_m q) old_tail n of
                                  (swung, tail', weak1) \<Rightarrow>
                                    pop_loop weak1 result (head_m q) (tr @ [CasTail old_tail n swung])
                                      (q\<lparr>tail_m := tail'\<rparr>)))
                     else (case head_next of
                             None \<Rightarrow> Some (Inr (False, result, q, tr))
                           | Some n \<Rightarrow>
                               (case heap q n of
                                  None \<Rightarrow> Some (Inl Dangling)
                                | Some next_node \<Rightarrow>
                                    (case data next_node of
                                       None \<Rightarrow> Some (Inr (False, result, q, tr))
                                     | Some v \<Rightarrow>
                                         (case compare_exchange_weak weak (head_m q) old_head n of
                                            (swung, head', weak1) \<Rightarrow>
                                              if swung
                                              then Some (Inr (True, Some v,
                                                     q\<lparr>head_m := head', heap := (heap q)(old_head := None),
                                                       size_m := size_m q - 1\<rparr>,
                                                     tr @ [CopyPayload n v, CasHead old_head n True,
                                                           Retire old_head]))
                                              else pop_loop weak1 (Some v) (head_m q)
                                                     (tr @ [CopyPayload n v, CasHead old_head n False]) q))))
                else pop_loop weak result (head_m q) tr q)"

declare pop_loop.simps [code]

definition empty_q :: "'a lockfree_queue \<Rightarrow> queue_fault + bool" where
  "empty_q q =
     (case heap q (head_m q) of
        None \<Rightarrow> Inl Dangling
      | Some head_node \<Rightarrow> Inr (head_m q = tail_m q \<and> next head_node = None))"

definition pop ::
  "bool list \<Rightarrow> 'a lockfree_queue \<Rightarrow>
   (queue_fault + bool \<times> 'a option \<times> 'a lockfree_queue \<times> 'a queue_event list) option" where
  "pop weak q = pop_loop weak None (head_m q) [] q"

text \<open>
  The shape of a queue: \<open>chain h a as\<close> says that, in the store \<open>h\<close>, the nodes linked
  behind the node at \<open>a\<close> are those at \<open>as\<close>, in order, and the last one has no
  successor. \<open>queue_inv q as vs\<close>: the nodes behind the head are \<open>as\<close>, no node occurs
  twice, the tail is the head or one of \<open>as\<close>, and the payloads of \<open>as\<close> are \<open>vs\<close>.
\<close>

fun chain :: "(addr \<rightharpoonup> 'a node) \<Rightarrow> addr \<Rightarrow> addr list \<Rightarrow> bool" where
  "chain h a [] = (case h a of None \<Rightarrow> False | Some n \<Rightarrow> next n = None)"
| "chain h a (b # bs) = (case h a of None \<Rightarrow> False | Some n \<Rightarrow> next n = Some b \<and> chain h b bs)"

definition payload :: "(addr \<rightharpoonup> 'a node) \<Rightarrow> addr \<Rightarrow> 'a option" where
  "payload h a = (case h a of None \<Rightarrow> None | Some n \<Rightarrow> data n)"

definition queue_inv :: "'a lockfree_queue \<Rightarrow> addr list \<Rightarrow> 'a list \<Rightarrow> bool" where
  "queue_inv q as vs =
     (chain (heap q) (head_m q) as \<and> distinct (head_m q # as) \<and>
      tail_m q \<in> set (head_m q # as) \<and> map (payload (heap q)) as = map Some vs)"

text \<open>
  The order of the events of a \<^verbatim>\<open>pop\<close>: an attempt to swing the head to a node comes
  directly after the copy of that node's payload, and a node is deleted only directly
  after the successful swing of the head away from it. \<open>prev\<close> is the event before.
  \<open>advanced_to\<close> lists the nodes the head was swung to.
\<close>

fun pop_order :: "'a queue_event option \<Rightarrow> 'a queue_event list \<Rightarrow> bool" where
  "pop_order prev [] = True"
| "pop_order prev (CasHead h n ok # es) =
     ((case prev of Some (CopyPayload n' v) \<Rightarrow> n' = n | _ \<Rightarrow> False) \<and>
      pop_order (Some (CasHead h n ok)) es)"
| "pop_order prev (Retire h # es) =
     ((case prev of Some (CasHead h' n ok) \<Rightarrow> h' = h \<and> ok | _ \<Rightarrow> False) \<and>
      pop_order (Some (Retire h)) es)"
| "pop_order prev (e # es) = pop_order (Some e) es"

fun advanced_to :: "'a queue_event list \<Rightarrow> addr list" where
  "advanced_to [] = []"
| "advanced_to (CasHead h n ok # es) = (if ok then n # advanced_to es else advanced_to es)"
| "advanced_to (e # es) = advanced_to es"

text \<open>
  A run of operations by one thread. The run state is the queue, what the pops returned
  (\<open>found\<close> and the value written) and the events of the pops. A \<open>Push\<close> with an address
  that is in use is not a step (\<open>None\<close>).
\<close>

datatype 'a queue_op = Push 'a addr "bool list" | Pop "bool list"

type_synonym 'a queue_run_state =
  "'a lockfree_queue \<times> (bool \<times> 'a option) list \<times> 'a queue_event list"

fun queue_step ::
  "'a queue_op \<Rightarrow> 'a queue_run_state \<Rightarrow> (queue_fault + 'a queue_run_state) option" where
  "queue_step (Push v new_node weak) (q, outs, tr) =
     (case heap q new_node of
        Some allocated \<Rightarrow> None
      | None \<Rightarrow>
          (case push v new_node weak q of
             None \<Rightarrow> None
           | Some (Inl fault) \<Rightarrow> Some (Inl fault)
           | Some (Inr (pushed, q')) \<Rightarrow> Some (Inr (q', outs, tr))))"
| "queue_step (Pop weak) (q, outs, tr) =
     (case pop weak q of
        None \<Rightarrow> None
      | Some (Inl fault) \<Rightarrow> Some (Inl fault)
      | Some (Inr (found, result, q', tr')) \<Rightarrow>
          Some (Inr (q', outs @ [(found, result)], tr @ tr')))"

fun queue_run ::
  "'a queue_op list \<Rightarrow> 'a queue_run_state \<Rightarrow> (queue_fault + 'a queue_run_state) option" where
  "queue_run [] st = Some (Inr st)"
| "queue_run (op # ops) st =
     (case queue_step op st of
        None \<Rightarrow> None
      | Some (Inl fault) \<Rightarrow> Some (Inl fault)
      | Some (Inr st') \<Rightarrow> queue_run ops st')"

subsection \<open>Concrete queues, to run the model on\<close>

text \<open>A queue holding one value whose tail was not swung by the push (it failed spuriously).\<close>

definition lagging_example :: "string lockfree_queue" where
  "lagging_example =
     \<lparr>heap = [0 \<mapsto> \<lparr>data = None, next = Some 1\<rparr>, 1 \<mapsto> \<lparr>data = Some ''x'', next = None\<rparr>],
      head_m = 0, tail_m = 0, size_m = 1\<rparr>"

definition ops_example :: "string queue_op list" where
  "ops_example = [Push ''a'' 1 [False, True], Pop [True], Push ''b'' 0 [True], Push ''c'' 2 [],
     Pop [], Pop [True, True], Pop []]"


definition trace_example :: "string queue_event list" where
  "trace_example =
     [CasTail 0 1 False, CasTail 0 1 True, CopyPayload 1 ''a'', CasHead 0 1 True, Retire 0,
      CopyPayload 0 ''b'', CasHead 1 0 True, Retire 1,
      CopyPayload 2 ''c'', CasHead 0 2 False, CopyPayload 2 ''c'', CasHead 0 2 False,
      CopyPayload 2 ''c'', CasHead 0 2 True, Retire 0]"

section \<open>Frame intake\<close>

lemma on_frame_registered_skip:
  assumes "sessions_m s ch = Some session"
      and "now_ms env - last_frame_time_ms session <s 200"
  shows "on_frame_received fl env ch frame s =
           s\<lparr>sessions_m := (sessions_m s)(ch \<mapsto>
              session\<lparr>stats := (stats session)\<lparr>total_frames := total_frames (stats session) + 1\<rparr>\<rparr>)\<rparr>"
  using assms by (simp add: on_frame_received_def Let_def)

lemma on_frame_registered_run:
  assumes "sessions_m s ch = Some session"
      and "\<not> now_ms env - last_frame_time_ms session <s 200"
  shows "\<exists>session'. sessions_m (on_frame_received fl env ch frame s) ch = Some session' \<and>
           total_frames (stats session') = total_frames (stats session) + 1 \<and>
           last_frame_time_ms session' = now_ms env \<and>
           inference_engine_m (on_frame_received fl env ch frame s) = inference_engine_m s @ [frame]"
  using assms by (simp add: on_frame_received_def Let_def split: option.splits)


lemma deliver_total_frames:
  "sessions_m s ch = Some session \<Longrightarrow>
   \<exists>session'. sessions_m (deliver fl ch frames s) ch = Some session' \<and>
     total_frames (stats session') = total_frames (stats session) + of_nat (length frames)"
proof (induction frames arbitrary: s session)
  case Nil
  then show ?case by simp
next
  case (Cons a frames)
  obtain env frame where a: "a = (env, frame)" by (cases a)
  let ?s1 = "on_frame_received fl env ch frame s"
  show ?case
  proof (cases "now_ms env - last_frame_time_ms session <s 200")
    case True
    from on_frame_registered_skip[OF Cons.prems True, of fl frame]
    have "sessions_m ?s1 ch = Some (session\<lparr>stats := (stats session)
            \<lparr>total_frames := total_frames (stats session) + 1\<rparr>\<rparr>)"
      by simp
    from Cons.IH[OF this] show ?thesis by (simp add: a add.assoc)
  next
    case False
    from on_frame_registered_run[OF Cons.prems False, of fl frame]
    obtain session' where s': "sessions_m ?s1 ch = Some session'"
      "total_frames (stats session') = total_frames (stats session) + 1" by blast
    from Cons.IH[OF s'(1)] s'(2) show ?thesis by (simp add: a add.assoc)
  qed
qed

text \<open>One, two or three periods of 50 ms after a detector call the frame is still throttled.\<close>

lemma small_gap: "j \<in> {1, 2, 3} \<Longrightarrow> (50 * of_nat j :: 64 word) <s 200"
  by (auto simp: word_sless_alt)

text \<open>
  The bound for any number of frames 50 ms apart: \<open>j\<close> counts the periods since the last
  detector call, and is 4 when nothing is known about it.
\<close>

lemma deliver_calls_bound:
  "sessions_m s ch = Some session \<Longrightarrow> arrivals t 50 frames \<Longrightarrow> 1 \<le> j \<Longrightarrow> j \<le> 4 \<Longrightarrow>
   (j < 4 \<longrightarrow> last_frame_time_ms session = t - 50 * of_nat j) \<Longrightarrow>
   detector_calls (deliver fl ch frames s) \<le> detector_calls s + (length frames + j - 1) div 4"
proof (induction frames arbitrary: s session t j)
  case Nil
  then show ?case by simp
next
  case (Cons a frames)
  obtain env frame where a: "a = (env, frame)" by (cases a)
  from Cons.prems(2) a have now: "now_ms env = t" and rest: "arrivals (t + 50) 50 frames"
    by auto
  let ?s1 = "on_frame_received fl env ch frame s"
  show ?case
  proof (cases "now_ms env - last_frame_time_ms session <s 200")
    case True
    let ?session1 = "session\<lparr>stats := (stats session)
            \<lparr>total_frames := total_frames (stats session) + 1\<rparr>\<rparr>"
    have s1: "sessions_m ?s1 ch = Some ?session1"
      and c1: "detector_calls ?s1 = detector_calls s"
      using on_frame_registered_skip[OF Cons.prems(1) True, of fl frame]
      by (simp_all add: detector_calls_def)
    let ?j = "min 4 (Suc j)"
    have "detector_calls (deliver fl ch frames ?s1)
            \<le> detector_calls ?s1 + (length frames + ?j - 1) div 4"
    proof (rule Cons.IH[OF s1 rest])
      show "1 \<le> ?j" by simp
      show "?j \<le> 4" by simp
      show "?j < 4 \<longrightarrow> last_frame_time_ms ?session1 = t + 50 - 50 * of_nat ?j"
        using Cons.prems(3,4,5) by (auto simp: min_def algebra_simps)
    qed
    also have "\<dots> \<le> detector_calls s + (length (a # frames) + j - 1) div 4"
      using c1 Cons.prems(3,4) by (auto simp: min_def intro!: div_le_mono)
    finally show ?thesis by (simp add: a)
  next
    case False
    have j4: "j = 4"
    proof (rule ccontr)
      assume "j \<noteq> 4"
      with Cons.prems have j: "j \<in> {1, 2, 3}"
        and l: "last_frame_time_ms session = t - 50 * of_nat j" by auto
      from small_gap[OF j] False show False by (simp add: now l)
    qed
    from on_frame_registered_run[OF Cons.prems(1) False, of fl frame]
    obtain session' where s1: "sessions_m ?s1 ch = Some session'"
      and l1: "last_frame_time_ms session' = now_ms env"
      and c1: "detector_calls ?s1 = Suc (detector_calls s)"
      by (auto simp: detector_calls_def)
    have "detector_calls (deliver fl ch frames ?s1)
            \<le> detector_calls ?s1 + (length frames + 1 - 1) div 4"
      by (rule Cons.IH[OF s1 rest]) (simp_all add: l1 now)
    also have "\<dots> \<le> detector_calls s + (length (a # frames) + j - 1) div 4"
      using c1 j4 by simp
    finally show ?thesis by (simp add: a)
  qed
qed

text \<open>
  Clock readings are milliseconds since the epoch, so they are not negative, and the
  64-bit difference of two of them is their difference as integers.
\<close>

lemma nonneg_elapsed:
  fixes t l :: "64 word"
  assumes "0 \<le>s t" "0 \<le>s l"
  shows "sint (t - l) = sint t - sint l"
proof -
  have "sint t < 2 ^ 63" "sint l < 2 ^ 63"
    using sint_lt[of t] sint_lt[of l] by simp_all
  moreover have "0 \<le> sint t" "0 \<le> sint l"
    using assms by (simp_all add: word_sle_eq)
  ultimately have "- (2 ^ 63) \<le> sint t - sint l" "sint t - sint l < 2 ^ 63"
    by linarith+
  then show ?thesis
    by (simp add: sint_word_diff signed_take_bit_int_eq_self)
qed

text \<open>
  C1. For a frame of a registered channel: \<open>total_frames\<close> goes up by one whatever
  happens next; the detector is called exactly when the elapsed time since
  \<open>last_frame_time_ms\<close> is not below 200 ms, and then \<open>last_frame_time_ms\<close> becomes the
  current clock reading (otherwise it stays). The elapsed time is the 64-bit difference,
  which for clock readings that are not negative is the difference of the integers. For
  20 frames 50 ms apart the detector is called at most 5 times and \<open>total_frames\<close> goes
  up by 20.
\<close>

theorem frame_intake_throttle:
  fixes s :: "('f, 'g, 'img) camera_manager"
  assumes reg: "sessions_m s ch = Some session"
  shows "(\<exists>session'. sessions_m (on_frame_received fl env ch frame s) ch = Some session' \<and>
            total_frames (stats session') = total_frames (stats session) + 1 \<and>
            (if now_ms env - last_frame_time_ms session <s 200
             then inference_engine_m (on_frame_received fl env ch frame s) = inference_engine_m s \<and>
                  last_frame_time_ms session' = last_frame_time_ms session
             else inference_engine_m (on_frame_received fl env ch frame s)
                    = inference_engine_m s @ [frame] \<and>
                  last_frame_time_ms session' = now_ms env)) \<and>
         (0 \<le>s now_ms env \<and> 0 \<le>s last_frame_time_ms session \<longrightarrow>
            (now_ms env - last_frame_time_ms session <s 200) =
            (sint (now_ms env) - sint (last_frame_time_ms session) < 200)) \<and>
         (\<forall>t frames. arrivals t 50 frames \<and> length frames = 20 \<longrightarrow>
            detector_calls (deliver fl ch frames s) \<le> detector_calls s + 5 \<and>
            (\<exists>session'. sessions_m (deliver fl ch frames s) ch = Some session' \<and>
               total_frames (stats session') = total_frames (stats session) + 20))"
proof (intro conjI allI impI)
  show "\<exists>session'. sessions_m (on_frame_received fl env ch frame s) ch = Some session' \<and>
            total_frames (stats session') = total_frames (stats session) + 1 \<and>
            (if now_ms env - last_frame_time_ms session <s 200
             then inference_engine_m (on_frame_received fl env ch frame s) = inference_engine_m s \<and>
                  last_frame_time_ms session' = last_frame_time_ms session
             else inference_engine_m (on_frame_received fl env ch frame s)
                    = inference_engine_m s @ [frame] \<and>
                  last_frame_time_ms session' = now_ms env)"
  proof (cases "now_ms env - last_frame_time_ms session <s 200")
    case True
    show ?thesis using on_frame_registered_skip[OF reg True, of fl frame] True by simp
  next
    case False
    show ?thesis using on_frame_registered_run[OF reg False, of fl frame] False by auto
  qed
next
  assume "0 \<le>s now_ms env \<and> 0 \<le>s last_frame_time_ms session"
  then show "(now_ms env - last_frame_time_ms session <s 200) =
            (sint (now_ms env) - sint (last_frame_time_ms session) < 200)"
    by (simp add: word_sless_alt nonneg_elapsed)
next
  fix t and frames :: "(('f, 'img) frame_env \<times> 'img) list"
  assume a: "arrivals t 50 frames \<and> length frames = 20"
  from deliver_calls_bound[OF reg, of t frames 4 fl] a
  show "detector_calls (deliver fl ch frames s) \<le> detector_calls s + 5" by simp
  from deliver_total_frames[OF reg, of fl frames] a
  show "\<exists>session'. sessions_m (deliver fl ch frames s) ch = Some session' \<and>
               total_frames (stats session') = total_frames (stats session) + 20" by simp
qed

theorem frame_intake_throttle_witness:
  "sessions_m registry5 5 = Some (new_session exact_ops start_env0 5 ''rtsp://a'') \<and>
   (\<exists>session'. sessions_m (on_frame_received exact_ops (env0 1700000001000 12) 5 0 registry5) 5
        = Some session' \<and>
      total_frames (stats session') = 1 \<and>
      inference_engine_m (on_frame_received exact_ops (env0 1700000001000 12) 5 0 registry5) = [0] \<and>
      last_frame_time_ms session' = 1700000001000) \<and>
   (0 :: int64) \<le>s 1700000001000 \<and> (0 :: int64) \<le>s 0 \<and>
   \<not> ((1700000001000 :: int64) - 0 <s 200) \<and>
   arrivals 1700000001000 50 frames20 \<and> length frames20 = 20 \<and>
   detector_calls (deliver exact_ops 5 frames20 registry5) \<le> 5 \<and>
   (\<exists>session'. sessions_m (deliver exact_ops 5 frames20 registry5) 5 = Some session' \<and>
      total_frames (stats session') = 20)"
proof -
  have reg: "sessions_m registry5 5 = Some (new_session exact_ops start_env0 5 ''rtsp://a'')"
    by (simp add: registry5_def)
  have arr: "arrivals 1700000001000 50 frames20" "length frames20 = 20"
    by (simp_all add: frames20_def upt_rec env0_def)
  have l0: "last_frame_time_ms
      (new_session exact_ops start_env0 5 ''rtsp://a'' :: (real, real, nat) camera_session) = 0"
    "total_frames (stats
      (new_session exact_ops start_env0 5 ''rtsp://a'' :: (real, real, nat) camera_session)) = 0"
    by (simp_all add: new_session_def session_with_def Let_def)
  have e0: "inference_engine_m registry5 = []" "detector_calls registry5 = 0"
    by (simp_all add: registry5_def CameraManager_def detector_calls_def)
  have n0: "now_ms (env0 1700000001000 12) = 1700000001000"
    by (simp add: env0_def)
  have late: "\<not> ((1700000001000 :: int64) - 0 <s 200)" "(0 :: int64) \<le>s 1700000001000"
    by (simp_all add: word_sless_alt word_sle_eq)
  note th = frame_intake_throttle[OF reg, of exact_ops "env0 1700000001000 12" 0]
  from th late have A: "\<exists>session'.
      sessions_m (on_frame_received exact_ops (env0 1700000001000 12) 5 0 registry5) 5
        = Some session' \<and>
      total_frames (stats session') = 1 \<and>
      inference_engine_m (on_frame_received exact_ops (env0 1700000001000 12) 5 0 registry5) = [0] \<and>
      last_frame_time_ms session' = 1700000001000"
    by (simp add: l0 e0 n0)
  from th arr have B: "detector_calls (deliver exact_ops 5 frames20 registry5) \<le> 5 \<and>
    (\<exists>session'. sessions_m (deliver exact_ops 5 frames20 registry5) 5 = Some session' \<and>
      total_frames (stats session') = 20)"
    by (simp add: l0 e0)
  show ?thesis using reg arr A B late by simp
qed

section \<open>The running average of the detector's latency\<close>




section \<open>Starting and stopping a camera\<close>

text \<open>
  On a new decoder \<^verbatim>\<open>start\<close> goes through, so what \<^verbatim>\<open>start_camera\<close> stores is \<open>new_session\<close>;
  on a decoder whose thread has returned by itself and was never joined it terminates.
\<close>

lemma decoder_start_fresh:
  "decoder_start ch (VideoDecoder z url) = Inr (decoder_started ch (VideoDecoder z url))"
  by (simp add: decoder_start_def VideoDecoder_def)

lemma decoder_restart_terminates:
  "\<not> running_m d \<Longrightarrow> decode_thread_m d = Some Joinable \<Longrightarrow> decoder_start ch d = Inl Terminate"
  by (simp add: decoder_start_def)

lemma start_camera_already_running:
  "sessions_m s ch = Some session \<Longrightarrow> start_camera fl env ch url s = Inr (False, s)"
  by (simp add: start_camera_def)

lemma start_camera_unregistered:
  "sessions_m s ch = None \<Longrightarrow> start_camera fl env ch url s = Inl NullDereference"
  by (simp add: start_camera_def decoder_start_def VideoDecoder_def deref_def move_ptr_def
      Let_def)

text \<open>
  C5. On a channel that is not registered, \<^verbatim>\<open>start_camera\<close> builds the session, starts
  the decoder, sleeps and stores the session in the map, and then reads the statistics
  for its log line through the pointer it has just moved from: it does not return.
\<close>

theorem start_camera_use_after_move:
  "start_camera exact_ops start_env0 5 ''rtsp://a''
     (CameraManager :: (real, real, nat) camera_manager) = Inl NullDereference"
  by (simp add: start_camera_def decoder_start_def VideoDecoder_def deref_def move_ptr_def
      Let_def CameraManager_def)

lemma stop_camera_not_found:
  "sessions_m s ch = None \<Longrightarrow> stop_camera ch s = Inr (False, s)"
  by (simp add: stop_camera_def)

lemma stop_camera_running:
  assumes "sessions_m s ch = Some session" and "decoder session = Some d"
      and "running_m d" and "decode_thread_m d = Some Joinable"
  shows "stop_camera ch s = Inr (True, s\<lparr>sessions_m := (sessions_m s)(ch := None)\<rparr>)"
  using assms
  by (simp add: stop_camera_def session_destroy_def decoder_destroy_def decoder_stop_def
      join_thread_def Let_def)

lemma stop_camera_ended:
  assumes "sessions_m s ch = Some session" and "decoder session = Some d"
      and "\<not> running_m d" and "decode_thread_m d = Some Joinable"
  shows "stop_camera ch s = Inl Terminate"
  using assms
  by (simp add: stop_camera_def session_destroy_def decoder_destroy_def decoder_stop_def
      Let_def)

text \<open>
  C6. On a registered channel whose decode thread has already returned (here: the stream
  could not be opened), \<^verbatim>\<open>VideoDecoder::stop\<close> finds \<^verbatim>\<open>running_\<close> cleared and does not
  join; erasing the session then destroys a thread object that is still joinable, which
  terminates the process.
\<close>

theorem stop_camera_ended_stream_terminates:
  "stop_camera 7 registry7 = Inl Terminate"
  by (simp add: stop_camera_def registry7_def CameraManager_def new_session_def session_with_def
      start_env_failed_def decoder_after_sleep_def decoder_started_def VideoDecoder_def
      session_destroy_def decoder_destroy_def decoder_stop_def Let_def)

text \<open>
  C9. A frame delivered for a channel that is not registered leaves the whole registry
  as it was: no counter moves, the detector is not called, no statistics and no snapshot
  are written.
\<close>

theorem on_frame_unregistered_noop:
  "sessions_m s ch = None \<Longrightarrow> on_frame_received fl env ch frame s = s"
  by (simp add: on_frame_received_def)

theorem on_frame_unregistered_noop_witness:
  "sessions_m (CameraManager :: (real, real, nat) camera_manager) 5 = None \<and>
   on_frame_received exact_ops (env0 1700000001000 12) 5 0 (CameraManager :: (real, real, nat) camera_manager)
     = CameraManager"
  using on_frame_unregistered_noop [of "CameraManager :: (real, real, nat) camera_manager" 5
      exact_ops "env0 1700000001000 12" 0]
  by (simp add: CameraManager_def)

section \<open>The worker pool\<close>

lemma running_update:
  "i < length ws \<Longrightarrow>
   mset (concat (map task_of (ws[i := w]))) + mset (task_of (ws ! i)) =
   mset (concat (map task_of ws)) + mset (task_of w)"
proof (induction ws arbitrary: i)
  case Nil
  then show ?case by simp
next
  case (Cons a ws)
  then show ?case by (cases i) (auto simp: ac_simps)
qed

lemma held_wake: "worker_wake i p = Some p' \<Longrightarrow> held p' = held p \<and> stop_m p' = stop_m p"
proof -
  assume a: "worker_wake i p = Some p'"
  then have i: "i < length (workers_m p)" and w: "workers_m p ! i = Waiting"
    by (auto simp: worker_wake_def split: if_splits)
  show ?thesis
  proof (cases "stop_m p \<and> tasks_m p = []")
    case True
    with a i w have p': "p' = p\<lparr>workers_m := (workers_m p)[i := Exited]\<rparr>"
      by (auto simp: worker_wake_def)
    from running_update[OF i, of Exited] w show ?thesis
      by (simp add: p' held_def running_tasks_def)
  next
    case False
    with a i w obtain task rest where t: "tasks_m p = task # rest"
      and p': "p' = p\<lparr>tasks_m := rest, workers_m := (workers_m p)[i := Running task]\<rparr>"
      by (auto simp: worker_wake_def split: if_splits list.splits)
    from running_update[OF i, of "Running task"] w show ?thesis
      by (simp add: p' t held_def running_tasks_def)
  qed
qed

lemma held_finish: "worker_finish i p = Some p' \<Longrightarrow> held p' = held p \<and> stop_m p' = stop_m p"
proof -
  assume a: "worker_finish i p = Some p'"
  then obtain task where i: "i < length (workers_m p)" and w: "workers_m p ! i = Running task"
    and p': "p' = p\<lparr>completed := completed p @ [task], workers_m := (workers_m p)[i := Waiting]\<rparr>"
    by (auto simp: worker_finish_def split: if_splits worker.splits)
  from running_update[OF i, of Waiting] w show ?thesis
    by (simp add: p' held_def running_tasks_def)
qed

lemma held_run:
  "pool_run es p = Some p' \<Longrightarrow>
   held p' = held p + (if stop_m p then {#} else mset (accepted es)) \<and>
   (stop_m p \<longrightarrow> stop_m p')"
proof (induction es arbitrary: p)
  case Nil
  then show ?case by simp
next
  case (Cons e es)
  from Cons.prems obtain p1 where st: "pool_step e p = Some p1" and run: "pool_run es p1 = Some p'"
    by (auto split: option.splits)
  note IH = Cons.IH[OF run]
  show ?case
  proof (cases e)
    case (Enqueue task)
    with st IH show ?thesis
      by (auto simp: enqueue_def held_def running_tasks_def split: if_splits)
  next
    case (Wake i)
    with st held_wake[of i p p1] IH show ?thesis by auto
  next
    case (Finish i)
    with st held_finish[of i p p1] IH show ?thesis by auto
  next
    case Shutdown
    with st IH show ?thesis by (auto simp: shutdown_def held_def running_tasks_def)
  qed
qed

lemma worker_exit_only:
  assumes "pool_step e p = Some p'" "j < length (workers_m p)"
    "workers_m p' ! j = Exited" "workers_m p ! j \<noteq> Exited"
  shows "e = Wake j \<and> stop_m p \<and> tasks_m p = []"
proof (cases e)
  case (Enqueue task)
  with assms show ?thesis by (auto simp: enqueue_def split: if_splits)
next
  case (Wake i)
  with assms show ?thesis
    by (cases "i = j") (auto simp: worker_wake_def split: if_splits list.splits)
next
  case (Finish i)
  with assms show ?thesis
    by (cases "i = j") (auto simp: worker_finish_def split: if_splits worker.splits)
next
  case Shutdown
  with assms show ?thesis by (auto simp: shutdown_def)
qed

lemma exit_inv_step:
  assumes "pool_step e p = Some p'" "exit_inv p"
  shows "exit_inv p' \<and> length (workers_m p') = length (workers_m p)"
proof (cases e)
  case (Enqueue task)
  with assms show ?thesis by (auto simp: enqueue_def exit_inv_def split: if_splits)
next
  case (Wake i)
  with assms show ?thesis
    by (auto simp: worker_wake_def exit_inv_def split: if_splits list.splits
        dest!: set_update_subset_insert[THEN subsetD])
next
  case (Finish i)
  with assms show ?thesis
    by (auto simp: worker_finish_def exit_inv_def split: if_splits worker.splits
        dest!: set_update_subset_insert[THEN subsetD])
next
  case Shutdown
  with assms show ?thesis by (auto simp: shutdown_def exit_inv_def)
qed

lemma exit_inv_run:
  "pool_run es p = Some p' \<Longrightarrow> exit_inv p \<Longrightarrow>
   exit_inv p' \<and> length (workers_m p') = length (workers_m p)"
proof (induction es arbitrary: p)
  case Nil
  then show ?case by simp
next
  case (Cons e es)
  from Cons.prems obtain p1 where st: "pool_step e p = Some p1" and run: "pool_run es p1 = Some p'"
    by (auto split: option.splits)
  from exit_inv_step[OF st Cons.prems(2)] Cons.IH[OF run] show ?case by simp
qed

lemma joined_no_running: "joined p \<Longrightarrow> running_tasks p = []"
  by (auto simp: joined_def running_tasks_def list_all_iff)

text \<open>Progress of the workers once \<^verbatim>\<open>stop_\<close> is set.\<close>

lemma weight_update:
  "i < length ws \<Longrightarrow>
   sum_list (map weight (ws[i := w])) + weight (ws ! i) = sum_list (map weight ws) + weight w"
proof (induction ws arbitrary: i)
  case Nil
  then show ?case by simp
next
  case (Cons a ws)
  then show ?case by (cases i) auto
qed

lemma work_left_wake: "worker_wake i p = Some p' \<Longrightarrow> work_left p' < work_left p"
proof -
  assume a: "worker_wake i p = Some p'"
  then have i: "i < length (workers_m p)" and w: "workers_m p ! i = Waiting"
    by (auto simp: worker_wake_def split: if_splits)
  show ?thesis
  proof (cases "stop_m p \<and> tasks_m p = []")
    case True
    with a i w have p': "p' = p\<lparr>workers_m := (workers_m p)[i := Exited]\<rparr>"
      by (auto simp: worker_wake_def)
    from weight_update[OF i, of Exited] w show ?thesis
      by (simp add: p' work_left_def)
  next
    case False
    with a i w obtain task rest where t: "tasks_m p = task # rest"
      and p': "p' = p\<lparr>tasks_m := rest, workers_m := (workers_m p)[i := Running task]\<rparr>"
      by (auto simp: worker_wake_def split: if_splits list.splits)
    from weight_update[OF i, of "Running task"] w show ?thesis
      by (simp add: p' t work_left_def)
  qed
qed

lemma work_left_finish: "worker_finish i p = Some p' \<Longrightarrow> work_left p' < work_left p"
proof -
  assume a: "worker_finish i p = Some p'"
  then obtain task where i: "i < length (workers_m p)" and w: "workers_m p ! i = Running task"
    and p': "p' = p\<lparr>completed := completed p @ [task], workers_m := (workers_m p)[i := Waiting]\<rparr>"
    by (auto simp: worker_finish_def split: if_splits worker.splits)
  from weight_update[OF i, of Waiting] w show ?thesis
    by (simp add: p' work_left_def)
qed

lemma worker_run_bounded:
  "list_all worker_event ws \<Longrightarrow> pool_run ws p = Some p' \<Longrightarrow>
   length ws + work_left p' \<le> work_left p"
proof (induction ws arbitrary: p)
  case Nil
  then show ?case by simp
next
  case (Cons e ws)
  from Cons.prems obtain p1 where st: "pool_step e p = Some p1" and run: "pool_run ws p1 = Some p'"
    by (auto split: option.splits)
  from Cons.prems(1) have ev: "worker_event e" and rest: "list_all worker_event ws" by simp_all
  from ev st have "work_left p1 < work_left p"
    by (cases e) (auto dest: work_left_wake work_left_finish)
  with Cons.IH[OF rest run] show ?case by simp
qed

lemma worker_can_step:
  assumes "stop_m p" "i < length (workers_m p)" "workers_m p ! i \<noteq> Exited"
  shows "\<exists>p'. pool_step (Wake i) p = Some p' \<or> pool_step (Finish i) p = Some p'"
proof (cases "workers_m p ! i")
  case Waiting
  with assms show ?thesis
    by (cases "tasks_m p") (auto simp: worker_wake_def)
next
  case (Running task)
  with assms show ?thesis by (auto simp: worker_finish_def)
next
  case Exited
  with assms show ?thesis by simp
qed

lemma not_joined_worker:
  "\<not> joined p \<Longrightarrow> \<exists>i < length (workers_m p). workers_m p ! i \<noteq> Exited"
  by (auto simp: joined_def list_all_length)

lemma pool_run_append:
  "pool_run (xs @ ys) p = (case pool_run xs p of None \<Rightarrow> None | Some p1 \<Rightarrow> pool_run ys p1)"
  by (induction xs arbitrary: p) (auto split: option.splits)

lemma accepted_append_workers:
  "list_all worker_event ws \<Longrightarrow> accepted (es @ ws) = accepted es"
proof (induction es rule: accepted.induct)
  case 1
  then show ?case
  proof (induction ws)
    case Nil
    then show ?case by simp
  next
    case (Cons e ws)
    then show ?case by (cases e) auto
  qed
qed auto

lemma drain_exists:
  "stop_m p \<Longrightarrow> \<exists>ws p'. list_all worker_event ws \<and> pool_run ws p = Some p' \<and> joined p'"
proof (induction "work_left p" arbitrary: p rule: less_induct)
  case less
  show ?case
  proof (cases "joined p")
    case True
    then show ?thesis by (intro exI[of _ "[]"] exI[of _ p]) simp
  next
    case False
    from not_joined_worker[OF False] obtain i where i: "i < length (workers_m p)"
      "workers_m p ! i \<noteq> Exited" by blast
    from worker_can_step[OF less.prems i] obtain p1 where
      st: "pool_step (Wake i) p = Some p1 \<or> pool_step (Finish i) p = Some p1" by blast
    then obtain e where e: "worker_event e" "pool_step e p = Some p1"
      by (metis worker_event.simps(1,2))
    from e have lt: "work_left p1 < work_left p"
      by (cases e) (auto dest: work_left_wake work_left_finish)
    from e have s1: "stop_m p1" using less.prems
      by (cases e) (auto dest: held_wake held_finish)
    from less.hyps[OF lt s1] obtain ws p' where
      "list_all worker_event ws" "pool_run ws p1 = Some p'" "joined p'" by blast
    with e show ?thesis
      by (intro exI[of _ "e # ws"] exI[of _ p']) simp
  qed
qed

text \<open>
  C10, as the claim states it, fails for a pool constructed with no worker, which the
  constructor accepts: the destructor has no thread to join and returns at once, and the
  task it had accepted is never called.
\<close>

theorem shutdown_without_workers_counterexample:
  "pool_run [Enqueue ''a'', Shutdown] (ThreadPool 0) =
     Some \<lparr>workers_m = [], tasks_m = [''a''], stop_m = True, completed = []\<rparr> \<and>
   joined \<lparr>workers_m = [], tasks_m = [''a''], stop_m = True, completed = ([] :: string list)\<rparr> \<and>
   accepted [Enqueue ''a'', Shutdown] = [''a''] \<and>
   ''a'' \<notin> set (completed
     \<lparr>workers_m = [], tasks_m = [''a''], stop_m = True, completed = ([] :: string list)\<rparr>)"
  by (simp add: ThreadPool_def enqueue_def shutdown_def joined_def)

text \<open>
  When every worker of a pool with at least one worker has left its loop, the queue is
  empty and what was accepted before the shutdown has been completed.
\<close>

lemma joined_all_completed:
  assumes run: "pool_run es (ThreadPool n) = Some p" and n: "0 < n" and j: "joined p"
  shows "stop_m p \<and> tasks_m p = [] \<and> running_tasks p = [] \<and>
         mset (completed p) = mset (accepted es)"
proof -
  have init: "exit_inv (ThreadPool n :: 'a thread_pool)" "held (ThreadPool n :: 'a thread_pool) = {#}"
    "\<not> stop_m (ThreadPool n :: 'a thread_pool)" "length (workers_m (ThreadPool n :: 'a thread_pool)) = n"
    by (auto simp: exit_inv_def ThreadPool_def held_def running_tasks_def)
  from exit_inv_run[OF run init(1)] init(4) have inv: "exit_inv p" and len: "length (workers_m p) = n"
    by simp_all
  from len n j have "Exited \<in> set (workers_m p)"
    by (cases "workers_m p") (auto simp: joined_def)
  with inv have st: "stop_m p" "tasks_m p = []" by (auto simp: exit_inv_def)
  from held_run[OF run] init have "held p = mset (accepted es)" by simp
  with st joined_no_running[OF j] have "mset (completed p) = mset (accepted es)"
    by (simp add: held_def)
  with st joined_no_running[OF j] show ?thesis by blast
qed

lemma stopped_after_shutdown:
  "pool_run es p = Some p' \<Longrightarrow> stop_m p' \<Longrightarrow> \<not> stop_m p \<Longrightarrow> Shutdown \<in> set es"
proof (induction es arbitrary: p)
  case Nil
  then show ?case by simp
next
  case (Cons e es)
  from Cons.prems obtain p1 where st: "pool_step e p = Some p1" and run: "pool_run es p1 = Some p'"
    by (auto split: option.splits)
  show ?case
  proof (cases e)
    case (Enqueue task)
    with st Cons.prems(3) have "\<not> stop_m p1" by (auto simp: enqueue_def)
    from Cons.IH[OF run Cons.prems(2) this] show ?thesis by simp
  next
    case (Wake i)
    with st Cons.prems(3) have "\<not> stop_m p1" by (auto dest: held_wake)
    from Cons.IH[OF run Cons.prems(2) this] show ?thesis by simp
  next
    case (Finish i)
    with st Cons.prems(3) have "\<not> stop_m p1" by (auto dest: held_finish)
    from Cons.IH[OF run Cons.prems(2) this] show ?thesis by simp
  next
    case Shutdown
    then show ?thesis by simp
  qed
qed

lemma accepted_after_shutdown: "Shutdown \<in> set es \<Longrightarrow> accepted (es @ es') = accepted es"
  by (induction es rule: accepted.induct) auto

text \<open>
  C10, amended: for a pool constructed with at least one worker. A worker leaves its loop
  only in its critical section, and only when \<^verbatim>\<open>stop_\<close> is set and the queue is empty.
  In every state after the destructor has set \<^verbatim>\<open>stop_\<close>: every worker that has not left
  its loop can take its next step (it takes the front task while the queue is not empty,
  ends the call it is in, or leaves when the queue is empty), and unless the join is
  complete there is such a worker; the workers can take only a bounded number of steps,
  so the draining ends; some run of worker steps completes the join; and whenever the
  join is complete, after any further steps, the queue is empty, no task is being called
  and the tasks completed are exactly the tasks accepted before the shutdown, each as
  often as it was submitted.
\<close>

theorem shutdown_drains_queue:
  assumes run: "pool_run es (ThreadPool n) = Some p" and n: "0 < n" and stop: "stop_m p"
  shows "(\<forall>e q q' i. pool_step e q = Some q' \<and> i < length (workers_m q) \<and>
            workers_m q ! i \<noteq> Exited \<and> workers_m q' ! i = Exited \<longrightarrow>
            e = Wake i \<and> stop_m q \<and> tasks_m q = []) \<and>
         (\<forall>i. i < length (workers_m p) \<and> workers_m p ! i \<noteq> Exited \<longrightarrow>
            (\<exists>p'. pool_step (Wake i) p = Some p' \<or> pool_step (Finish i) p = Some p')) \<and>
         (\<not> joined p \<longrightarrow> (\<exists>i. i < length (workers_m p) \<and> workers_m p ! i \<noteq> Exited)) \<and>
         (\<forall>ws p'. list_all worker_event ws \<and> pool_run ws p = Some p' \<longrightarrow>
            length ws \<le> work_left p \<and> stop_m p') \<and>
         (\<exists>ws p'. list_all worker_event ws \<and> pool_run ws p = Some p' \<and> joined p') \<and>
         (\<forall>es' p'. pool_run es' p = Some p' \<and> joined p' \<longrightarrow>
            tasks_m p' = [] \<and> running_tasks p' = [] \<and>
            mset (completed p') = mset (accepted es))"
proof -
  have A: "\<forall>e q q' i. pool_step e q = Some q' \<and> i < length (workers_m q) \<and>
            workers_m q ! i \<noteq> Exited \<and> workers_m q' ! i = Exited \<longrightarrow>
            e = Wake i \<and> stop_m q \<and> tasks_m q = []"
    using worker_exit_only by blast
  have B: "\<forall>i. i < length (workers_m p) \<and> workers_m p ! i \<noteq> Exited \<longrightarrow>
            (\<exists>p'. pool_step (Wake i) p = Some p' \<or> pool_step (Finish i) p = Some p')"
    using worker_can_step[OF stop] by blast
  have C: "\<not> joined p \<longrightarrow> (\<exists>i. i < length (workers_m p) \<and> workers_m p ! i \<noteq> Exited)"
    using not_joined_worker[of p] by blast
  have D: "\<forall>ws p'. list_all worker_event ws \<and> pool_run ws p = Some p' \<longrightarrow>
            length ws \<le> work_left p \<and> stop_m p'"
  proof (intro allI impI)
    fix ws p'
    assume a: "list_all worker_event ws \<and> pool_run ws p = Some p'"
    with worker_run_bounded[of ws p p'] have "length ws \<le> work_left p" by simp
    moreover from a held_run[of ws p p'] stop have "stop_m p'" by simp
    ultimately show "length ws \<le> work_left p \<and> stop_m p'" ..
  qed
  have E: "\<exists>ws p'. list_all worker_event ws \<and> pool_run ws p = Some p' \<and> joined p'"
    by (rule drain_exists[OF stop])
  have F: "\<forall>es' p'. pool_run es' p = Some p' \<and> joined p' \<longrightarrow>
            tasks_m p' = [] \<and> running_tasks p' = [] \<and>
            mset (completed p') = mset (accepted es)"
  proof (intro allI impI)
    fix es' p'
    assume a: "pool_run es' p = Some p' \<and> joined p'"
    with run have r: "pool_run (es @ es') (ThreadPool n) = Some p'"
      by (simp add: pool_run_append)
    have "\<not> stop_m (ThreadPool n :: 'a thread_pool)" by (simp add: ThreadPool_def)
    from stopped_after_shutdown[OF run stop this] have "accepted (es @ es') = accepted es"
      by (rule accepted_after_shutdown)
    with joined_all_completed[OF r n] a
    show "tasks_m p' = [] \<and> running_tasks p' = [] \<and>
            mset (completed p') = mset (accepted es)"
      by simp
  qed
  show ?thesis by (intro conjI A B C D E F)
qed

theorem shutdown_drains_queue_witness:
  "pool_run backlog_example (ThreadPool 1) =
     Some \<lparr>workers_m = [Waiting], tasks_m = [''a'', ''b''], stop_m = True, completed = []\<rparr> \<and>
   (0 :: nat) < 1 \<and>
   stop_m \<lparr>workers_m = [Waiting], tasks_m = [''a'', ''b''], stop_m = True,
     completed = ([] :: string list)\<rparr> \<and>
   \<not> joined \<lparr>workers_m = [Waiting], tasks_m = [''a'', ''b''], stop_m = True,
     completed = ([] :: string list)\<rparr> \<and>
   pool_step (Wake 0)
     \<lparr>workers_m = [Waiting], tasks_m = [''a'', ''b''], stop_m = True, completed = []\<rparr>
     = Some \<lparr>workers_m = [Running ''a''], tasks_m = [''b''], stop_m = True, completed = []\<rparr> \<and>
   list_all worker_event drain_example \<and>
   pool_run drain_example
     \<lparr>workers_m = [Waiting], tasks_m = [''a'', ''b''], stop_m = True, completed = []\<rparr>
     = Some \<lparr>workers_m = [Exited], tasks_m = [], stop_m = True, completed = [''a'', ''b'']\<rparr> \<and>
   joined \<lparr>workers_m = [Exited], tasks_m = [], stop_m = True, completed = [''a'', ''b'']\<rparr> \<and>
   length drain_example \<le> work_left
     \<lparr>workers_m = [Waiting], tasks_m = [''a'', ''b''], stop_m = True,
       completed = ([] :: string list)\<rparr> \<and>
   mset [''a'', ''b''] = mset (accepted backlog_example) \<and>
   pool_step (Wake 0)
     \<lparr>workers_m = [Waiting], tasks_m = [], stop_m = True, completed = [''a'', ''b'']\<rparr>
     = Some \<lparr>workers_m = [Exited], tasks_m = [], stop_m = True, completed = [''a'', ''b'']\<rparr>"
proof -
  let ?p = "\<lparr>workers_m = [Waiting], tasks_m = [''a'', ''b''], stop_m = True,
     completed = ([] :: string list)\<rparr>"
  let ?p' = "\<lparr>workers_m = [Exited], tasks_m = [], stop_m = True, completed = [''a'', ''b'']\<rparr>"
  have run: "pool_run backlog_example (ThreadPool 1) = Some ?p"
    by (simp add: backlog_example_def ThreadPool_def enqueue_def shutdown_def)
  have n: "(0 :: nat) < 1" by simp
  have stop: "stop_m ?p" by simp
  have nj: "\<not> joined ?p" by (simp add: joined_def)
  have w: "pool_step (Wake 0) ?p
     = Some \<lparr>workers_m = [Running ''a''], tasks_m = [''b''], stop_m = True, completed = []\<rparr>"
    by (simp add: worker_wake_def)
  have ev: "list_all worker_event drain_example"
    by (simp add: drain_example_def)
  have dr: "pool_run drain_example ?p = Some ?p'"
    by (simp add: drain_example_def worker_wake_def worker_finish_def)
  have j: "joined ?p'" by (simp add: joined_def)
  have x: "pool_step (Wake 0)
     \<lparr>workers_m = [Waiting], tasks_m = [], stop_m = True, completed = [''a'', ''b'']\<rparr> = Some ?p'"
    by (simp add: worker_wake_def)
  note th = shutdown_drains_queue[OF run n stop]
  from th ev dr have A: "length drain_example \<le> work_left ?p" by blast
  from th dr j have "mset (completed ?p') = mset (accepted backlog_example)" by blast
  then have B: "mset [''a'', ''b''] = mset (accepted backlog_example)"
    by (simp only: thread_pool.select_convs)
  show ?thesis using run stop nj w ev dr j A B x by simp
qed

text \<open>
  C3. In every state after the destructor has set \<^verbatim>\<open>stop_\<close>, \<^verbatim>\<open>enqueue\<close> fails with
  \<open>PoolClosed\<close> and leaves the pool as it was: the task is not queued. Whatever happens
  afterwards, the tasks the pool holds (queued, being called, completed) stay the same,
  so a task that the pool did not hold already is never called.
\<close>

theorem enqueue_after_shutdown:
  assumes after: "pool_run es0 (shutdown p0) = Some p"
  shows "enqueue task p = Inl PoolClosed \<and> pool_step (Enqueue task) p = Some p \<and>
         (\<forall>es p'. pool_run (Enqueue task # es) p = Some p' \<longrightarrow>
            stop_m p' \<and> held p' = held p \<and>
            (task \<notin># held p \<longrightarrow>
               task \<notin> set (tasks_m p') \<and> task \<notin> set (running_tasks p') \<and>
               task \<notin> set (completed p')))"
proof -
  have "stop_m (shutdown p0)" by (simp add: shutdown_def)
  with held_run[OF after] have st: "stop_m p" by simp
  then have e: "enqueue task p = Inl PoolClosed" "pool_step (Enqueue task) p = Some p"
    by (simp_all add: enqueue_def)
  have "stop_m p' \<and> held p' = held p \<and>
            (task \<notin># held p \<longrightarrow>
               task \<notin> set (tasks_m p') \<and> task \<notin> set (running_tasks p') \<and>
               task \<notin> set (completed p'))"
    if r: "pool_run (Enqueue task # es) p = Some p'" for es p'
  proof -
    from r e have "pool_run es p = Some p'" by simp
    from held_run[OF this] st have h: "stop_m p'" "held p' = held p" by simp_all
    have "task \<notin> set (tasks_m p') \<and> task \<notin> set (running_tasks p') \<and>
               task \<notin> set (completed p')" if "task \<notin># held p"
    proof -
      from that h have "task \<notin># held p'" by simp
      then show ?thesis by (simp add: held_def)
    qed
    with h show ?thesis by blast
  qed
  with e show ?thesis by blast
qed

theorem enqueue_after_shutdown_witness:
  "pool_run [] (shutdown late_example) = Some (late_example\<lparr>stop_m := True\<rparr>) \<and>
   enqueue ''late'' (late_example\<lparr>stop_m := True\<rparr>) = Inl PoolClosed \<and>
   pool_run [Enqueue ''late'', Wake 0, Finish 0, Wake 0] (late_example\<lparr>stop_m := True\<rparr>)
     = Some \<lparr>workers_m = [Exited], tasks_m = [], stop_m = True, completed = [''a'']\<rparr> \<and>
   ''late'' \<notin># held (late_example\<lparr>stop_m := True\<rparr>) \<and>
   ''late'' \<notin> set (completed
      \<lparr>workers_m = [Exited], tasks_m = [], stop_m = True, completed = [''a'']\<rparr>)"
proof -
  have after: "pool_run [] (shutdown late_example) = Some (late_example\<lparr>stop_m := True\<rparr>)"
    by (simp add: shutdown_def)
  have run: "pool_run [Enqueue ''late'', Wake 0, Finish 0, Wake 0] (late_example\<lparr>stop_m := True\<rparr>)
     = Some \<lparr>workers_m = [Exited], tasks_m = [], stop_m = True, completed = [''a'']\<rparr>"
    by (simp add: late_example_def enqueue_def worker_wake_def worker_finish_def)
  have fresh: "''late'' \<notin># held (late_example\<lparr>stop_m := True\<rparr>)"
    by (simp add: late_example_def held_def running_tasks_def)
  note th = enqueue_after_shutdown[OF after, of "''late''"]
  from th have A: "enqueue ''late'' (late_example\<lparr>stop_m := True\<rparr>) = Inl PoolClosed"
    by simp
  from th run fresh have B: "''late'' \<notin> set (completed
      \<lparr>workers_m = [Exited], tasks_m = [], stop_m = True, completed = [''a'']\<rparr>)"
    by blast
  show ?thesis using after run fresh A B by simp
qed

section \<open>The task queue\<close>

lemma chain_allocated: "chain h a as \<Longrightarrow> b \<in> set (a # as) \<Longrightarrow> h b \<noteq> None"
  by (induction as arbitrary: a) (auto split: option.splits)

lemma chain_next:
  "chain h a as \<Longrightarrow> \<exists>n. h a = Some n \<and> next n = (case as of [] \<Rightarrow> None | b # bs \<Rightarrow> Some b)"
  by (cases as) (auto split: option.splits)

lemma chain_suffix:
  "chain h a (xs @ t # post) \<Longrightarrow> chain h t post"
  by (induction xs arbitrary: a) (auto split: option.splits)

lemma chain_suffix':
  "chain h a as \<Longrightarrow> a # as = pre @ t # post \<Longrightarrow> chain h t post"
  by (cases pre) (auto dest: chain_suffix)

lemma chain_update_outside:
  "b \<notin> set (a # as) \<Longrightarrow> chain (h(b := x)) a as = chain h a as"
  by (induction as arbitrary: a) (auto split: option.splits)

text \<open>Linking a new last node behind the last node of a chain.\<close>

lemma chain_link:
  assumes "chain h a as" "distinct (a # as)" "new \<notin> set (a # as)"
    "h (last (a # as)) = Some lnode" "h new = Some nn" "next nn = None"
  shows "chain (h(last (a # as) \<mapsto> lnode\<lparr>next := Some new\<rparr>)) a (as @ [new])"
  using assms
proof (induction as arbitrary: a)
  case Nil
  then show ?case by auto
next
  case (Cons b bs)
  then show ?case by (auto split: option.splits)
qed

lemma cas_weak_cases:
  "compare_exchange_weak weak x x d = (True, d, tl weak) \<or>
   (\<exists>w. weak = True # w \<and> compare_exchange_weak weak x x d = (False, x, w))"
  by (auto simp: compare_exchange_weak_def split: list.splits)

lemma push_loop_links:
  assumes "chain (heap q) (head_m q) as" "distinct (head_m q # as)"
      "head_m q # as = pre @ tail_m q # post"
      "heap q new = Some nn" "next nn = None" "new \<notin> set (head_m q # as)"
  shows "\<exists>q' lnode. push_loop weak new (tail_m q) q = Some (Inr (True, q')) \<and>
           heap q (last (head_m q # as)) = Some lnode \<and>
           heap q' = (heap q)(last (head_m q # as) \<mapsto> lnode\<lparr>next := Some new\<rparr>) \<and>
           head_m q' = head_m q \<and> tail_m q' \<in> set (head_m q # as @ [new]) \<and>
           size_m q' = size_m q + 1"
  using assms
proof (induction "length weak + length post" arbitrary: weak q pre post rule: less_induct)
  case less
  note prems = less.prems
  from prems(1,3) have ct: "chain (heap q) (tail_m q) post" by (rule chain_suffix')
  from chain_next[OF ct] obtain tn where tn: "heap q (tail_m q) = Some tn"
    and nx: "next tn = (case post of [] \<Rightarrow> None | b # bs \<Rightarrow> Some b)" by blast
  show ?case
  proof (cases post)
    case Nil
    with prems(3) have lst: "last (head_m q # as) = tail_m q" by simp
    from Nil nx have nx': "next tn = None" by simp
    from cas_weak_cases[of weak None "Some new"]
    show ?thesis
    proof
      assume c: "compare_exchange_weak weak None None (Some new) = (True, Some new, tl weak)"
      let ?q1 = "q\<lparr>heap := (heap q)(tail_m q \<mapsto> tn\<lparr>next := Some new\<rparr>)\<rparr>"
      obtain swung t' w2 where c2: "compare_exchange_weak (tl weak) (tail_m q) (tail_m q) new = (swung, t', w2)"
        by (cases "compare_exchange_weak (tl weak) (tail_m q) (tail_m q) new") auto
      with cas_weak_cases[of "tl weak" "tail_m q" new] have t': "t' = new \<or> t' = tail_m q" by auto
      have "push_loop weak new (tail_m q) q = Some (Inr (True, ?q1\<lparr>tail_m := t', size_m := size_m q + 1\<rparr>))"
        by (subst push_loop.simps) (simp add: tn nx' c c2)
      moreover have "tail_m q \<in> set (head_m q # as)"
        unfolding prems(3) by simp
      ultimately show ?thesis using tn lst t' by auto
    next
      assume "\<exists>w. weak = True # w \<and> compare_exchange_weak weak None None (Some new) = (False, None, w)"
      then obtain w where w: "weak = True # w"
        and c: "compare_exchange_weak weak None None (Some new) = (False, None, w)" by blast
      have eq: "push_loop weak new (tail_m q) q = push_loop w new (tail_m q) q"
        by (subst push_loop.simps) (simp add: tn nx' c)
      have "length w + length post < length weak + length post" using w by simp
      from less.hyps[OF this prems] eq show ?thesis by simp
    qed
  next
    case (Cons b bs)
    with nx have nx': "next tn = Some b" by simp
    from cas_weak_cases[of weak "tail_m q" b]
    show ?thesis
    proof
      assume c: "compare_exchange_weak weak (tail_m q) (tail_m q) b = (True, b, tl weak)"
      let ?q1 = "q\<lparr>tail_m := b\<rparr>"
      have eq: "push_loop weak new (tail_m q) q = push_loop (tl weak) new (tail_m ?q1) ?q1"
        by (subst push_loop.simps) (simp add: tn nx' c)
      have m: "length (tl weak) + length bs < length weak + length post" using Cons by simp
      have p3: "head_m ?q1 # as = (pre @ [tail_m q]) @ tail_m ?q1 # bs"
        using prems(3) Cons by simp
      from less.hyps[OF m, of ?q1 "pre @ [tail_m q]"] prems p3 eq
      show ?thesis by simp
    next
      assume "\<exists>w. weak = True # w \<and> compare_exchange_weak weak (tail_m q) (tail_m q) b = (False, tail_m q, w)"
      then obtain w where w: "weak = True # w"
        and c: "compare_exchange_weak weak (tail_m q) (tail_m q) b = (False, tail_m q, w)" by blast
      have eq: "push_loop weak new (tail_m q) q = push_loop w new (tail_m q) q"
        by (subst push_loop.simps) (simp add: tn nx' c)
      have "length w + length post < length weak + length post" using w by simp
      from less.hyps[OF this prems] eq show ?thesis by simp
    qed
  qed
qed

lemma payload_relink [simp]:
  "h a = Some n \<Longrightarrow> payload (h(a \<mapsto> n\<lparr>next := x\<rparr>)) b = payload h b"
  by (simp add: payload_def)

lemma push_ok:
  assumes inv: "queue_inv q as vs" and fresh: "heap q new = None"
  shows "\<exists>q'. push v new weak q = Some (Inr (True, q')) \<and> queue_inv q' (as @ [new]) (vs @ [v]) \<and>
           head_m q' = head_m q \<and> size_m q' = size_m q + 1 \<and>
           dom (heap q') = insert new (dom (heap q)) \<and>
           payload (heap q') (head_m q') = payload (heap q) (head_m q)"
proof -
  let ?nn = "\<lparr>data = Some v, next = None\<rparr>"
  let ?q0 = "q\<lparr>heap := (heap q)(new \<mapsto> ?nn)\<rparr>"
  from inv have ch: "chain (heap q) (head_m q) as" and d: "distinct (head_m q # as)"
    and t: "tail_m q \<in> set (head_m q # as)" and pl: "map (payload (heap q)) as = map Some vs"
    by (simp_all add: queue_inv_def)
  from chain_allocated[OF ch] fresh have new: "new \<notin> set (head_m q # as)" by blast
  from t obtain pre post where sp: "head_m q # as = pre @ tail_m q # post"
    by (meson split_list)
  have ch0: "chain (heap ?q0) (head_m ?q0) as"
    using ch new by (simp add: chain_update_outside)
  from push_loop_links[OF ch0, of pre post new ?nn weak] d sp new
  obtain q' lnode where r: "push_loop weak new (tail_m ?q0) ?q0 = Some (Inr (True, q'))"
    and l: "heap ?q0 (last (head_m q # as)) = Some lnode"
    and h': "heap q' = (heap ?q0)(last (head_m q # as) \<mapsto> lnode\<lparr>next := Some new\<rparr>)"
    and hd: "head_m q' = head_m q" and tl: "tail_m q' \<in> set (head_m q # as @ [new])"
    and sz: "size_m q' = size_m q + 1"
    by auto
  have lin: "last (head_m q # as) \<in> set (head_m q # as)" by (rule last_in_set) simp
  with new have ne: "last (head_m q # as) \<noteq> new" by auto
  let ?h0 = "(heap q)(new \<mapsto> ?nn)"
  have ch0': "chain ?h0 (head_m q) as" using ch0 by simp
  have l': "?h0 (last (head_m q # as)) = Some lnode" using l by simp
  have "chain (?h0(last (head_m q # as) \<mapsto> lnode\<lparr>next := Some new\<rparr>)) (head_m q) (as @ [new])"
    by (rule chain_link[OF ch0' d new l', of ?nn]) simp_all
  then have ch': "chain (heap q') (head_m q') (as @ [new])"
    unfolding h' hd by simp
  have pay: "payload (heap q') a = payload (heap ?q0) a" for a
    unfolding h' using l by simp
  have pay0: "a \<noteq> new \<Longrightarrow> payload (heap ?q0) a = payload (heap q) a" for a
    by (simp add: payload_def)
  have "payload (heap q') a = payload (heap q) a" if "a \<in> set as" for a
  proof -
    from that new have "a \<noteq> new" by auto
    with pay pay0 show ?thesis by simp
  qed
  then have "map (payload (heap q')) as = map (payload (heap q)) as"
    by (intro map_cong) simp_all
  with pl have "map (payload (heap q')) as = map Some vs" by simp
  moreover have "payload (heap q') new = Some v"
    by (simp add: pay) (simp add: payload_def)
  ultimately have pl': "map (payload (heap q')) (as @ [new]) = map Some (vs @ [v])" by simp
  have inv': "queue_inv q' (as @ [new]) (vs @ [v])"
    using ch' d new tl pl' hd by (auto simp: queue_inv_def)
  have dm: "dom (heap q') = insert new (dom (heap q))"
    unfolding h' using l ne by (auto split: if_splits)
  have "payload (heap q') (head_m q') = payload (heap q) (head_m q)"
    using pay pay0[of "head_m q"] new hd by simp
  with r inv' hd sz dm show ?thesis by (simp add: push_def Let_def)
qed

lemma advanced_to_append: "advanced_to (xs @ ys) = advanced_to xs @ advanced_to ys"
  by (induction xs rule: advanced_to.induct) auto

lemma pop_order_any: "pop_order None es \<Longrightarrow> pop_order p es"
  by (cases es rule: advanced_to.cases) auto

lemma pop_order_append: "pop_order p xs \<Longrightarrow> pop_order None ys \<Longrightarrow> pop_order p (xs @ ys)"
proof (induction xs arbitrary: p)
  case Nil
  then show ?case by (simp add: pop_order_any)
next
  case (Cons e xs)
  then show ?case by (cases e) auto
qed

lemma pop_empty:
  assumes "queue_inv q [] []"
  shows "pop weak q = Some (Inr (False, None, q, []))"
proof -
  from assms have t: "tail_m q = head_m q" and ch: "chain (heap q) (head_m q) []"
    by (simp_all add: queue_inv_def)
  from chain_next[OF ch] obtain hn where "heap q (head_m q) = Some hn" "next hn = None" by auto
  then show ?thesis
    unfolding pop_def by (subst pop_loop.simps) (simp add: t Let_def)
qed

lemma pop_loop_nonempty:
  assumes "chain (heap q) (head_m q) (a # as)" "distinct (head_m q # a # as)"
      "tail_m q \<in> set (head_m q # a # as)" "payload (heap q) a = Some v"
  shows "\<exists>q' tr'. pop_loop weak result (head_m q) tr q = Some (Inr (True, Some v, q', tr @ tr')) \<and>
           head_m q' = a \<and> heap q' = (heap q)(head_m q := None) \<and>
           tail_m q' = (if tail_m q = head_m q then a else tail_m q) \<and>
           size_m q' = size_m q - 1 \<and> pop_order None tr' \<and> advanced_to tr' = [a] \<and>
           CopyPayload a v \<in> set tr' \<and>
           (tail_m q = head_m q \<longrightarrow> CasTail (head_m q) a True \<in> set tr')"
  using assms
proof (induction "2 * length weak + (if tail_m q = head_m q then 1 else 0)"
    arbitrary: weak q result tr rule: less_induct)
  case less
  note prems = less.prems
  from chain_next[OF prems(1)] obtain hn where hn: "heap q (head_m q) = Some hn"
    and nx: "next hn = Some a" by auto
  from prems(4) obtain an where an: "heap q a = Some an" and dt: "data an = Some v"
    by (auto simp: payload_def split: option.splits)
  show ?case
  proof (cases "tail_m q = head_m q")
    case True
    from cas_weak_cases[of weak "head_m q" a]
    show ?thesis
    proof
      assume c: "compare_exchange_weak weak (head_m q) (head_m q) a = (True, a, tl weak)"
      let ?q1 = "q\<lparr>tail_m := a\<rparr>"
      let ?tr1 = "tr @ [CasTail (head_m q) a True]"
      have eq: "pop_loop weak result (head_m q) tr q = pop_loop (tl weak) result (head_m ?q1) ?tr1 ?q1"
        by (subst pop_loop.simps) (simp add: hn nx c True Let_def)
      from prems(2) have ne: "tail_m ?q1 \<noteq> head_m ?q1" by auto
      have m: "2 * length (tl weak) + (if tail_m ?q1 = head_m ?q1 then 1 else 0)
                 < 2 * length weak + (if tail_m q = head_m q then 1 else 0)"
        using True ne by simp
      from less.hyps[OF m, of result ?tr1] prems ne
      obtain q' tr' where
        r: "pop_loop (tl weak) result (head_m ?q1) ?tr1 ?q1 = Some (Inr (True, Some v, q', ?tr1 @ tr'))"
        and f: "head_m q' = a" "heap q' = (heap q)(head_m q := None)" "tail_m q' = a"
          "size_m q' = size_m q - 1" "pop_order None tr'" "advanced_to tr' = [a]"
          "CopyPayload a v \<in> set tr'"
        by auto
      let ?tr' = "CasTail (head_m q) a True # tr'"
      have "pop_loop weak result (head_m q) tr q = Some (Inr (True, Some v, q', tr @ ?tr'))"
        using eq r by simp
      moreover have "pop_order None ?tr'" using f(5) by (simp add: pop_order_any)
      moreover have "advanced_to ?tr' = [a]" using f(6) by simp
      ultimately show ?thesis using f True by (intro exI[of _ q'] exI[of _ ?tr']) simp
    next
      assume "\<exists>w. weak = True # w \<and>
        compare_exchange_weak weak (head_m q) (head_m q) a = (False, head_m q, w)"
      then obtain w where w: "weak = True # w"
        and c: "compare_exchange_weak weak (head_m q) (head_m q) a = (False, head_m q, w)" by blast
      let ?tr1 = "tr @ [CasTail (head_m q) a False]"
      have same: "q\<lparr>tail_m := head_m q\<rparr> = q"
        by (simp add: True[symmetric])
      have eq: "pop_loop weak result (head_m q) tr q = pop_loop w result (head_m q) ?tr1 q"
        by (subst pop_loop.simps) (simp add: hn nx c True Let_def same)
      have m: "2 * length w + (if tail_m q = head_m q then 1 else 0)
                 < 2 * length weak + (if tail_m q = head_m q then 1 else 0)"
        using w by simp
      from less.hyps[OF m prems, of result ?tr1]
      obtain q' tr' where
        r: "pop_loop w result (head_m q) ?tr1 q = Some (Inr (True, Some v, q', ?tr1 @ tr'))"
        and f: "head_m q' = a" "heap q' = (heap q)(head_m q := None)" "tail_m q' = a"
          "size_m q' = size_m q - 1" "pop_order None tr'" "advanced_to tr' = [a]"
          "CopyPayload a v \<in> set tr'" "CasTail (head_m q) a True \<in> set tr'"
        using True by auto
      let ?tr' = "CasTail (head_m q) a False # tr'"
      have "pop_loop weak result (head_m q) tr q = Some (Inr (True, Some v, q', tr @ ?tr'))"
        using eq r by simp
      moreover have "pop_order None ?tr'" using f(5) by (simp add: pop_order_any)
      moreover have "advanced_to ?tr' = [a]" using f(6) by simp
      ultimately show ?thesis using f True by (intro exI[of _ q'] exI[of _ ?tr']) simp
    qed
  next
    case False
    from cas_weak_cases[of weak "head_m q" a]
    show ?thesis
    proof
      assume c: "compare_exchange_weak weak (head_m q) (head_m q) a = (True, a, tl weak)"
      let ?q' = "q\<lparr>head_m := a, heap := (heap q)(head_m q := None), size_m := size_m q - 1\<rparr>"
      let ?tr' = "[CopyPayload a v, CasHead (head_m q) a True, Retire (head_m q)]"
      have "pop_loop weak result (head_m q) tr q = Some (Inr (True, Some v, ?q', tr @ ?tr'))"
        using False by (subst pop_loop.simps) (simp add: hn nx an dt c Let_def)
      then show ?thesis using False by (intro exI[of _ ?q'] exI[of _ ?tr']) simp
    next
      assume "\<exists>w. weak = True # w \<and>
        compare_exchange_weak weak (head_m q) (head_m q) a = (False, head_m q, w)"
      then obtain w where w: "weak = True # w"
        and c: "compare_exchange_weak weak (head_m q) (head_m q) a = (False, head_m q, w)" by blast
      let ?tr1 = "tr @ [CopyPayload a v, CasHead (head_m q) a False]"
      have eq: "pop_loop weak result (head_m q) tr q = pop_loop w (Some v) (head_m q) ?tr1 q"
        using False by (subst pop_loop.simps) (simp add: hn nx an dt c Let_def)
      have m: "2 * length w + (if tail_m q = head_m q then 1 else 0)
                 < 2 * length weak + (if tail_m q = head_m q then 1 else 0)"
        using w by simp
      from less.hyps[OF m prems, of "Some v" ?tr1]
      obtain q' tr' where
        r: "pop_loop w (Some v) (head_m q) ?tr1 q = Some (Inr (True, Some v, q', ?tr1 @ tr'))"
        and f: "head_m q' = a" "heap q' = (heap q)(head_m q := None)" "tail_m q' = tail_m q"
          "size_m q' = size_m q - 1" "pop_order None tr'" "advanced_to tr' = [a]"
          "CopyPayload a v \<in> set tr'"
        using False by auto
      let ?tr' = "CopyPayload a v # CasHead (head_m q) a False # tr'"
      have "pop_loop weak result (head_m q) tr q = Some (Inr (True, Some v, q', tr @ ?tr'))"
        using eq r by simp
      moreover have "pop_order None ?tr'" using f(5) by (simp add: pop_order_any)
      moreover have "advanced_to ?tr' = [a]" using f(6) by simp
      ultimately show ?thesis using f False by (intro exI[of _ q'] exI[of _ ?tr']) simp
    qed
  qed
qed

lemma pop_nonempty:
  assumes inv: "queue_inv q (a # as) (v # vs)"
  shows "\<exists>q' tr. pop weak q = Some (Inr (True, Some v, q', tr)) \<and> queue_inv q' as vs \<and>
           head_m q' = a \<and> heap q' = (heap q)(head_m q := None) \<and>
           tail_m q' = (if tail_m q = head_m q then a else tail_m q) \<and>
           size_m q' = size_m q - 1 \<and> pop_order None tr \<and> advanced_to tr = [a] \<and>
           CopyPayload a v \<in> set tr \<and>
           (tail_m q = head_m q \<longrightarrow> CasTail (head_m q) a True \<in> set tr) \<and>
           payload (heap q') a = Some v"
proof -
  from inv have ch: "chain (heap q) (head_m q) (a # as)" and d: "distinct (head_m q # a # as)"
    and t: "tail_m q \<in> set (head_m q # a # as)" and pa: "payload (heap q) a = Some v"
    and pl: "map (payload (heap q)) as = map Some vs"
    by (simp_all add: queue_inv_def)
  from pop_loop_nonempty[OF ch d t pa, of weak None "[]"]
  obtain q' tr where r: "pop weak q = Some (Inr (True, Some v, q', tr))"
    and f: "head_m q' = a" "heap q' = (heap q)(head_m q := None)"
      "tail_m q' = (if tail_m q = head_m q then a else tail_m q)"
      "size_m q' = size_m q - 1" "pop_order None tr" "advanced_to tr = [a]"
      "CopyPayload a v \<in> set tr"
      "tail_m q = head_m q \<longrightarrow> CasTail (head_m q) a True \<in> set tr"
    unfolding pop_def by auto
  from ch have cha: "chain (heap q) a as" by (auto split: option.splits)
  from d have out: "head_m q \<notin> set (a # as)" by auto
  have ch': "chain (heap q') (head_m q') as"
    unfolding f(1,2) using cha out by (simp add: chain_update_outside)
  have "payload (heap q') x = payload (heap q) x" if "x \<in> set as" for x
    using that out by (auto simp: f(2) payload_def)
  then have "map (payload (heap q')) as = map (payload (heap q)) as"
    by (intro map_cong) simp_all
  with pl have pl': "map (payload (heap q')) as = map Some vs" by simp
  have "tail_m q' \<in> set (head_m q' # as)"
    using t f(1,3) by auto
  with ch' d pl' f(1) have "queue_inv q' as vs"
    by (simp add: queue_inv_def)
  moreover have "payload (heap q') a = Some v"
    using pa out by (auto simp: f(2) payload_def)
  ultimately show ?thesis using r f by blast
qed

lemma queue_inv_lengths: "queue_inv q as vs \<Longrightarrow> length as = length vs"
  by (auto simp: queue_inv_def dest: map_eq_imp_length_eq)

lemma queue_inv_init: "queue_inv (LockFreeQueue d) [] []"
  by (simp add: queue_inv_def LockFreeQueue_def)





text \<open>
  C4. On every queue that satisfies the queue's invariant, and for every pattern of
  spurious CAS failures, \<^verbatim>\<open>pop\<close> returns. It returns \<open>found = False\<close> exactly when the head
  equals the tail and the head's \<^verbatim>\<open>next\<close> is null (what \<^verbatim>\<open>empty()\<close> computes), and then
  it has written nothing and changed nothing. Otherwise it returns the payload of the
  node behind the head, the head is that node, the old head is deleted, and a tail that
  was equal to the head has been swung to that node. In the events of the call, every
  attempt to swing the head comes directly after the copy of the payload, and a node is
  deleted only directly after the call's own successful swing of the head.
\<close>

theorem pop_contract:
  assumes inv: "queue_inv q as vs"
  shows "\<exists>found result q' tr. pop weak q = Some (Inr (found, result, q', tr)) \<and>
           (found \<longleftrightarrow>
              \<not> (head_m q = tail_m q \<and> (\<exists>hn. heap q (head_m q) = Some hn \<and> next hn = None))) \<and>
           (\<not> found \<longrightarrow> result = None \<and> q' = q \<and> tr = []) \<and>
           (found \<longrightarrow>
              (\<exists>hn n v. heap q (head_m q) = Some hn \<and> next hn = Some n \<and>
                 payload (heap q) n = Some v \<and> result = Some v \<and> CopyPayload n v \<in> set tr \<and>
                 head_m q' = n \<and> heap q' = (heap q)(head_m q := None) \<and>
                 size_m q' = size_m q - 1 \<and> advanced_to tr = [n] \<and>
                 tail_m q' = (if tail_m q = head_m q then n else tail_m q) \<and>
                 (tail_m q = head_m q \<longrightarrow> CasTail (head_m q) n True \<in> set tr))) \<and>
           empty_q q = Inr (\<not> found) \<and>
           pop_order None tr"
proof (cases as)
  case Nil
  with inv queue_inv_lengths[OF inv] have e: "queue_inv q [] []" by simp
  then have t: "head_m q = tail_m q" and "chain (heap q) (head_m q) []"
    by (simp_all add: queue_inv_def)
  with chain_next[of "heap q" "head_m q" "[]"] obtain hn where
    hn: "heap q (head_m q) = Some hn" "next hn = None" by auto
  have em: "empty_q q = Inr True" using hn t by (simp add: empty_q_def)
  show ?thesis
    apply (rule exI[of _ False], rule exI[of _ None], rule exI[of _ q], rule exI[of _ "[]"])
    using pop_empty[OF e, of weak] hn t em by simp
next
  case (Cons a as')
  with queue_inv_lengths[OF inv] obtain v vs' where vs: "vs = v # vs'" by (cases vs) auto
  from inv Cons vs have inv': "queue_inv q (a # as') (v # vs')" by simp
  then have ch: "chain (heap q) (head_m q) (a # as')" and pa: "payload (heap q) a = Some v"
    by (simp_all add: queue_inv_def)
  from chain_next[OF ch] obtain hn where hn: "heap q (head_m q) = Some hn" "next hn = Some a"
    by auto
  have em: "empty_q q = Inr False" using hn by (simp add: empty_q_def)
  from pop_nonempty[OF inv', of weak] obtain q' tr where f:
    "pop weak q = Some (Inr (True, Some v, q', tr))" "head_m q' = a"
    "heap q' = (heap q)(head_m q := None)"
    "tail_m q' = (if tail_m q = head_m q then a else tail_m q)"
    "size_m q' = size_m q - 1" "pop_order None tr" "advanced_to tr = [a]"
    "CopyPayload a v \<in> set tr"
    "tail_m q = head_m q \<longrightarrow> CasTail (head_m q) a True \<in> set tr"
    by blast
  show ?thesis
    apply (rule exI[of _ True], rule exI[of _ "Some v"], rule exI[of _ q'], rule exI[of _ tr])
    using f hn pa em by simp
qed

lemma lagging_inv: "queue_inv lagging_example [1] [''x'']"
  by (simp add: queue_inv_def lagging_example_def payload_def)

theorem pop_contract_witness:
  "queue_inv lagging_example [1] [''x''] \<and>
   pop [True] lagging_example =
     Some (Inr (True, Some ''x'',
       lagging_example\<lparr>tail_m := 1, head_m := 1, heap := (heap lagging_example)(0 := None), size_m := 0\<rparr>,
       [CasTail 0 1 False, CasTail 0 1 True, CopyPayload 1 ''x'', CasHead 0 1 True, Retire 0])) \<and>
   pop_order None
     [CasTail 0 1 False, CasTail 0 1 True, CopyPayload 1 ''x'', CasHead 0 1 True, Retire (0 :: addr)] \<and>
   queue_inv (LockFreeQueue 0 :: string lockfree_queue) [] [] \<and>
   pop [True] (LockFreeQueue 0 :: string lockfree_queue) = Some (Inr (False, None, LockFreeQueue 0, []))"
proof -
  have ev: "pop [True] lagging_example =
     Some (Inr (True, Some ''x'',
       lagging_example\<lparr>tail_m := 1, head_m := 1, heap := (heap lagging_example)(0 := None), size_m := 0\<rparr>,
       [CasTail 0 1 False, CasTail 0 1 True, CopyPayload 1 ''x'', CasHead 0 1 True, Retire 0]))"
    by (simp add: pop_def pop_loop.simps lagging_example_def compare_exchange_weak_def)
  from pop_contract[OF lagging_inv, of "[True]"] ev
  have A: "pop_order None
     [CasTail 0 1 False, CasTail 0 1 True, CopyPayload 1 ''x'', CasHead 0 1 True, Retire (0 :: addr)]"
    by auto
  from pop_contract[OF queue_inv_init, of "[True]" 0]
  have B: "pop [True] (LockFreeQueue 0 :: string lockfree_queue) = Some (Inr (False, None, LockFreeQueue 0, []))"
    by (auto simp: LockFreeQueue_def)
  show ?thesis using lagging_inv ev A B queue_inv_init by simp
qed

text \<open>
  On a queue that satisfies the invariant every operation returns, without a fault; only
  a push at an address that is in use is not a step.
\<close>

lemma queue_step_enabled:
  assumes inv: "queue_inv q as vs"
  shows "(\<exists>st'. queue_step op (q, outs, tr) = Some (Inr st')) \<or>
         (\<exists>v new weak. op = Push v new weak \<and> heap q new \<noteq> None)"
proof (cases op)
  case (Push v new weak)
  show ?thesis
  proof (cases "heap q new")
    case None
    from push_ok[OF inv None, of v weak] Push None show ?thesis by auto
  next
    case (Some n)
    with Push show ?thesis by auto
  qed
next
  case (Pop weak)
  show ?thesis
  proof (cases vs)
    case Nil
    with inv queue_inv_lengths[OF inv] have "queue_inv q [] []" by simp
    from pop_empty[OF this, of weak] Pop show ?thesis by simp
  next
    case (Cons v vs')
    with queue_inv_lengths[OF inv] obtain a as' where "as = a # as'" by (cases as) auto
    with inv Cons have "queue_inv q (a # as') (v # vs')" by simp
    from pop_nonempty[OF this, of weak] Pop show ?thesis by auto
  qed
qed

lemma queue_step_inv:
  assumes st: "queue_step op (q, outs, tr) = Some (Inr (q', outs', tr'))"
    and inv: "queue_inv q as vs"
    and po: "pop_order None tr"
    and hd: "head_m q = last (d # advanced_to tr)"
    and snt: "advanced_to tr = [] \<longrightarrow> payload (heap q) (head_m q) = None"
    and cons: "advanced_to tr \<noteq> [] \<longrightarrow>
        (\<exists>v. payload (heap q) (head_m q) = Some v \<and> CopyPayload (head_m q) v \<in> set tr \<and>
           (True, Some v) \<in> set outs)"
  shows "(\<exists>as' vs'. queue_inv q' as' vs') \<and> pop_order None tr' \<and>
         head_m q' = last (d # advanced_to tr') \<and>
         (advanced_to tr' = [] \<longrightarrow> payload (heap q') (head_m q') = None) \<and>
         (advanced_to tr' \<noteq> [] \<longrightarrow>
            (\<exists>v. payload (heap q') (head_m q') = Some v \<and> CopyPayload (head_m q') v \<in> set tr' \<and>
               (True, Some v) \<in> set outs'))"
proof (cases op)
  case (Push v new weak)
  with st have fresh: "heap q new = None" by (auto split: option.splits)
  from push_ok[OF inv fresh, of v weak] obtain q1 where
    r: "push v new weak q = Some (Inr (True, q1))"
    and f: "queue_inv q1 (as @ [new]) (vs @ [v])" "head_m q1 = head_m q"
      "payload (heap q1) (head_m q1) = payload (heap q) (head_m q)" by blast
  from st Push fresh r have "q' = q1" "outs' = outs" "tr' = tr" by simp_all
  with f po hd snt cons show ?thesis by auto
next
  case (Pop weak)
  show ?thesis
  proof (cases vs)
    case Nil
    with inv queue_inv_lengths[OF inv] have e: "queue_inv q [] []" by simp
    from st Pop pop_empty[OF e, of weak]
    have "q' = q" "outs' = outs @ [(False, None)]" "tr' = tr" by simp_all
    with inv po hd snt cons show ?thesis by auto
  next
    case (Cons v vs')
    with queue_inv_lengths[OF inv] obtain a as' where as: "as = a # as'" by (cases as) auto
    from inv Cons as have inv': "queue_inv q (a # as') (v # vs')" by simp
    from pop_nonempty[OF inv', of weak] obtain q1 tr1 where
      r: "pop weak q = Some (Inr (True, Some v, q1, tr1))"
      and f: "queue_inv q1 as' vs'" "head_m q1 = a" "pop_order None tr1" "advanced_to tr1 = [a]"
        "CopyPayload a v \<in> set tr1" "payload (heap q1) a = Some v"
      by blast
    from st Pop r have e: "q' = q1" "outs' = outs @ [(True, Some v)]" "tr' = tr @ tr1"
      by simp_all
    have "pop_order None tr'" using po f(3) e by (simp add: pop_order_append)
    moreover have "advanced_to tr' = advanced_to tr @ [a]"
      using e f(4) by (simp add: advanced_to_append)
    ultimately show ?thesis using f e by auto
  qed
qed

lemma queue_run_inv:
  assumes "queue_run ops (q, outs, tr) = Some (Inr (q', outs', tr'))"
    and "queue_inv q as vs"
    and "pop_order None tr"
    and "head_m q = last (d # advanced_to tr)"
    and "advanced_to tr = [] \<longrightarrow> payload (heap q) (head_m q) = None"
    and "advanced_to tr \<noteq> [] \<longrightarrow>
        (\<exists>v. payload (heap q) (head_m q) = Some v \<and> CopyPayload (head_m q) v \<in> set tr \<and>
           (True, Some v) \<in> set outs)"
  shows "(\<exists>as' vs'. queue_inv q' as' vs') \<and> pop_order None tr' \<and>
         head_m q' = last (d # advanced_to tr') \<and>
         (advanced_to tr' = [] \<longrightarrow> payload (heap q') (head_m q') = None) \<and>
         (advanced_to tr' \<noteq> [] \<longrightarrow>
            (\<exists>v. payload (heap q') (head_m q') = Some v \<and> CopyPayload (head_m q') v \<in> set tr' \<and>
               (True, Some v) \<in> set outs'))"
  using assms
proof (induction ops arbitrary: q outs tr as vs)
  case Nil
  then show ?case by auto
next
  case (Cons op ops)
  from Cons.prems(1) obtain q1 outs1 tr1 where
    st: "queue_step op (q, outs, tr) = Some (Inr (q1, outs1, tr1))"
    and run: "queue_run ops (q1, outs1, tr1) = Some (Inr (q', outs', tr'))"
    by (auto split: option.splits sum.splits)
  from queue_step_inv[OF st Cons.prems(2-6)] obtain as1 vs1 where
    "queue_inv q1 as1 vs1" "pop_order None tr1" "head_m q1 = last (d # advanced_to tr1)"
    "advanced_to tr1 = [] \<longrightarrow> payload (heap q1) (head_m q1) = None"
    "advanced_to tr1 \<noteq> [] \<longrightarrow>
        (\<exists>v. payload (heap q1) (head_m q1) = Some v \<and> CopyPayload (head_m q1) v \<in> set tr1 \<and>
           (True, Some v) \<in> set outs1)"
    by blast
  from Cons.IH[OF run this] show ?case .
qed

text \<open>
  C8. After any run of pushes and pops on a new queue: the head node is allocated (the
  sentinel exists); the tail is the head or a node linked behind it, in a chain without
  repetition that ends in a node with no successor; the head is the initial sentinel,
  with no payload, as long as no pop has swung it, and afterwards it is the node the last
  successful pop swung it to, whose payload that pop has copied and returned.
\<close>

theorem queue_structure_invariant:
  assumes run: "queue_run ops (LockFreeQueue d, [], []) = Some (Inr (q, outs, tr))"
  shows "heap q (head_m q) \<noteq> None \<and>
         (\<exists>as. chain (heap q) (head_m q) as \<and> distinct (head_m q # as) \<and>
            tail_m q \<in> set (head_m q # as)) \<and>
         head_m q = last (d # advanced_to tr) \<and>
         (advanced_to tr = [] \<longrightarrow> payload (heap q) (head_m q) = None) \<and>
         (advanced_to tr \<noteq> [] \<longrightarrow>
            (\<exists>v. payload (heap q) (head_m q) = Some v \<and> CopyPayload (head_m q) v \<in> set tr \<and>
               (True, Some v) \<in> set outs)) \<and>
         pop_order None tr"
proof -
  have "(\<exists>as' vs'. queue_inv q as' vs') \<and> pop_order None tr \<and>
         head_m q = last (d # advanced_to tr) \<and>
         (advanced_to tr = [] \<longrightarrow> payload (heap q) (head_m q) = None) \<and>
         (advanced_to tr \<noteq> [] \<longrightarrow>
            (\<exists>v. payload (heap q) (head_m q) = Some v \<and> CopyPayload (head_m q) v \<in> set tr \<and>
               (True, Some v) \<in> set outs))"
    by (rule queue_run_inv[OF run queue_inv_init])
      (simp_all add: LockFreeQueue_def payload_def)
  then obtain as vs where inv: "queue_inv q as vs" and rest: "pop_order None tr"
    "head_m q = last (d # advanced_to tr)"
    "advanced_to tr = [] \<longrightarrow> payload (heap q) (head_m q) = None"
    "advanced_to tr \<noteq> [] \<longrightarrow>
        (\<exists>v. payload (heap q) (head_m q) = Some v \<and> CopyPayload (head_m q) v \<in> set tr \<and>
           (True, Some v) \<in> set outs)"
    by blast
  from inv have ch: "chain (heap q) (head_m q) as" "distinct (head_m q # as)"
    "tail_m q \<in> set (head_m q # as)" by (simp_all add: queue_inv_def)
  from chain_allocated[OF ch(1), of "head_m q"] have "heap q (head_m q) \<noteq> None" by simp
  with ch rest show ?thesis by blast
qed


theorem queue_structure_invariant_witness:
  "\<exists>q. queue_run ops_example (LockFreeQueue 0, [], [])
        = Some (Inr (q, [(True, Some ''a''), (True, Some ''b''), (True, Some ''c''), (False, None)],
            trace_example)) \<and>
      heap q (head_m q) \<noteq> None \<and>
      (\<exists>as. chain (heap q) (head_m q) as \<and> distinct (head_m q # as) \<and>
         tail_m q \<in> set (head_m q # as)) \<and>
      head_m q = 2 \<and> advanced_to trace_example = [1, 0, 2] \<and>
      payload (heap q) (head_m q) = Some ''c'' \<and>
      CopyPayload 2 ''c'' \<in> set trace_example \<and>
      pop_order None trace_example"
proof -
  have "case queue_run ops_example (LockFreeQueue 0, [], []) of
          Some (Inr (q, outs, tr)) \<Rightarrow>
            outs = [(True, Some ''a''), (True, Some ''b''), (True, Some ''c''), (False, None)] \<and>
            tr = trace_example
        | _ \<Rightarrow> False"
    by code_simp
  then obtain q where run: "queue_run ops_example (LockFreeQueue 0, [], [])
        = Some (Inr (q, [(True, Some ''a''), (True, Some ''b''), (True, Some ''c''), (False, None)],
            trace_example))"
    by (auto split: option.splits sum.splits)
  have adv: "advanced_to trace_example = [1, 0, 2]"
    by (simp add: trace_example_def)
  note th = queue_structure_invariant[OF run]
  from th adv have h: "head_m q = 2" by simp
  from th adv h obtain v where v: "payload (heap q) (head_m q) = Some v"
    "CopyPayload 2 v \<in> set trace_example" by auto
  then have "v = ''c''" by (auto simp: trace_example_def)
  with th adv h v run show ?thesis by auto
qed

end
